theory Spec2Isabelle
  imports Main "HOL-Library.Sublist" "HOL-Library.Multiset"
begin

section \<open>Strings, errors and the regular expressions of the program\<close>

text \<open>
  A Python \<open>str\<close> is a sequence of Unicode code points; the mail bodies are decoded
  UTF-8 text, so a code point is a natural number and a string a list of them.
  \<open>ascii\<close> embeds an ASCII literal.
\<close>

type_synonym codepoint = nat
type_synonym str = "codepoint list"

definition ascii :: "string \<Rightarrow> str" where
  "ascii cs = map of_char cs"

datatype error = IndexError | KeyError | TypeError | ValueError | OverflowError | DecodeError

subsection \<open>The fragment of Python's \<open>re\<close> that the program uses\<close>

text \<open>
  The patterns of the program are built from literal characters, \<open>.\<close> (any code point
  but the line feed), the classes \<open>[<>]\<close> and \<open>[^)]\<close>, a greedy star on one of these,
  concatenation and alternation.
\<close>

datatype atom = Lit codepoint | Dot | OneOf "codepoint list" | NoneOf "codepoint list"

fun ok :: "atom \<Rightarrow> codepoint \<Rightarrow> bool" where
  "ok (Lit a) c = (c = a)"
| "ok Dot c = (c \<noteq> 10)"
| "ok (OneOf cs) c = (c \<in> set cs)"
| "ok (NoneOf cs) c = (c \<notin> set cs)"

datatype rx = Eps | Atom atom | Star atom | Seq rx rx | Alt rx rx

text \<open>
  \<open>re_match r s\<close> lists what is left of \<open>s\<close> after each way of matching \<open>r\<close> at its
  start, in the order in which a backtracking matcher tries them: the star is greedy
  (longest first), the left alternative comes first. The match Python reports is the
  first of the list.
\<close>

fun re_match :: "rx \<Rightarrow> str \<Rightarrow> str list" where
  "re_match Eps s = [s]"
| "re_match (Atom a) s = (case s of [] \<Rightarrow> [] | c # cs \<Rightarrow> if ok a c then [cs] else [])"
| "re_match (Star a) s =
     (case s of [] \<Rightarrow> [[]]
      | c # cs \<Rightarrow> (if ok a c then re_match (Star a) cs else []) @ [s])"
| "re_match (Seq p q) s = concat (map (re_match q) (re_match p s))"
| "re_match (Alt p q) s = re_match p s @ re_match q s"

fun lit :: "str \<Rightarrow> rx" where
  "lit [] = Eps"
| "lit (c # cs) = Seq (Atom (Lit c)) (lit cs)"

text \<open>
  \<open>re_search r adv s\<close> is the leftmost match: the text before it, the matched text and
  the rest. With \<open>adv\<close> set, a match at the very start must not be empty (CPython's
  \<open>must_advance\<close>, set after an empty match).
\<close>

fun re_search :: "rx \<Rightarrow> bool \<Rightarrow> str \<Rightarrow> (str \<times> str \<times> str) option" where
  "re_search r adv s =
     (case (if adv then filter (\<lambda>x. length x < length s) (re_match r s) else re_match r s) of
        x # _ \<Rightarrow> Some ([], take (length s - length x) s, x)
      | [] \<Rightarrow>
         (case s of [] \<Rightarrow> None
          | c # cs \<Rightarrow>
             (case re_search r False cs of None \<Rightarrow> None
              | Some (pre, mt, rest) \<Rightarrow> Some (c # pre, mt, rest))))"

lemma re_match_suffix: "x \<in> set (re_match r s) \<Longrightarrow> suffix x s"
proof (induction r s arbitrary: x rule: re_match.induct)
  case (1 s)
  then show ?case by simp
next
  case (2 a s)
  then show ?case by (cases s) (auto split: if_splits simp: suffix_Cons)
next
  case (3 a s)
  then show ?case by (cases s) (auto split: if_splits simp: suffix_Cons)
next
  case (4 p q s)
  from "4.prems" obtain y where y: "y \<in> set (re_match p s)" and x: "x \<in> set (re_match q y)"
    by auto
  from "4.IH"(1)[OF y] "4.IH"(2)[OF y x] show ?case
    by (rule suffix_order.trans[rotated])
next
  case (5 p q s)
  then show ?case by auto
qed

lemma re_search_parts:
  "re_search r adv s = Some (pre, mt, rest) \<Longrightarrow>
     s = pre @ mt @ rest \<and> (adv \<and> pre = [] \<longrightarrow> mt \<noteq> [])"
proof (induction s arbitrary: adv pre mt rest)
  case Nil
  show ?case
  proof (cases adv)
    case True
    with Nil show ?thesis by simp
  next
    case False
    with Nil obtain xs where "re_match r [] = rest # xs" and e: "pre = []" "mt = []"
      by (auto split: list.splits)
    then have "rest \<in> set (re_match r [])" by simp
    from re_match_suffix[OF this] e False show ?thesis by simp
  qed
next
  case (Cons c cs)
  let ?ms = "if adv then filter (\<lambda>x. length x < length (c # cs)) (re_match r (c # cs))
             else re_match r (c # cs)"
  show ?case
  proof (cases ?ms)
    case Nil
    with Cons.prems obtain pre' where s: "re_search r False cs = Some (pre', mt, rest)"
      and p: "pre = c # pre'"
      by (auto split: option.splits)
    from Cons.IH[OF s] p show ?thesis by simp
  next
    case (Cons x xs)
    then have "x \<in> set ?ms" by simp
    then have xin: "x \<in> set (re_match r (c # cs))" and adv: "adv \<longrightarrow> length x < length (c # cs)"
      by (auto split: if_splits)
    from re_match_suffix[OF xin] obtain u where u: "c # cs = u @ x"
      by (auto simp: suffix_def)
    from Cons Cons.prems have e: "pre = []" "mt = take (length (c # cs) - length x) (c # cs)" "rest = x"
      by (auto split: if_splits)
    from u have tk: "take (length (c # cs) - length x) (c # cs) = u" by simp
    from adv u have "adv \<longrightarrow> u \<noteq> []" by auto
    with e tk u show ?thesis by simp
  qed
qed

text \<open>
  \<open>re.sub(pattern, repl, s)\<close>: every non-overlapping match, leftmost first, is
  replaced; the search resumes where the match ended.
\<close>

function re_sub_from :: "rx \<Rightarrow> str \<Rightarrow> bool \<Rightarrow> str \<Rightarrow> str" where
  "re_sub_from r repl adv s =
     (case re_search r adv s of None \<Rightarrow> s
      | Some (pre, mt, rest) \<Rightarrow> pre @ repl @ re_sub_from r repl (mt = []) rest)"
  by pat_completeness auto
termination
proof (relation "measure (\<lambda>(r, repl, adv, s). 2 * length s + (if adv then 0 else 1))", goal_cases)
  case 1
  then show ?case by simp
next
  case (2 r repl adv s x2 pre y mt rest)
  then have "re_search r adv s = Some (pre, mt, rest)" by simp
  from re_search_parts[OF this] show ?case
    by (cases pre; cases mt) auto
qed

definition re_sub :: "rx \<Rightarrow> str \<Rightarrow> str \<Rightarrow> str" where
  "re_sub r repl s = re_sub_from r repl False s"

text \<open>
  \<open>re.split(pattern, s)\<close>: the texts between the matches; when the whole pattern is
  one capturing group (\<open>cap\<close>), each matched text is returned too, in its place.
\<close>

function re_split_from :: "rx \<Rightarrow> bool \<Rightarrow> bool \<Rightarrow> str \<Rightarrow> str list" where
  "re_split_from r cap adv s =
     (case re_search r adv s of None \<Rightarrow> [s]
      | Some (pre, mt, rest) \<Rightarrow>
          pre # (if cap then [mt] else []) @ re_split_from r cap (mt = []) rest)"
  by pat_completeness auto
termination
proof (relation "measure (\<lambda>(r, cap, adv, s). 2 * length s + (if adv then 0 else 1))", goal_cases)
  case 1
  then show ?case by simp
next
  case (2 r cap adv s x2 pre y mt rest)
  then have "re_search r adv s = Some (pre, mt, rest)" by simp
  from re_search_parts[OF this] show ?case
    by (cases pre; cases mt) auto
qed

definition re_split :: "rx \<Rightarrow> bool \<Rightarrow> str \<Rightarrow> str list" where
  "re_split r cap s = re_split_from r cap False s"

declare re_search.simps [simp del] re_sub_from.simps [simp del] re_split_from.simps [simp del]

subsection \<open>String methods\<close>

text \<open>
  \<open>str.strip()\<close> removes the code points for which \<open>str.isspace\<close> holds from both
  ends.
\<close>

definition isspace :: "codepoint \<Rightarrow> bool" where
  "isspace c \<longleftrightarrow>
     c \<in> set [9, 10, 11, 12, 13, 28, 29, 30, 31, 32, 133, 160, 5760,
               8192, 8193, 8194, 8195, 8196, 8197, 8198, 8199, 8200, 8201, 8202,
               8232, 8233, 8239, 8287, 12288]"

definition strip :: "str \<Rightarrow> str" where
  "strip s = rev (dropWhile isspace (rev (dropWhile isspace s)))"

text \<open>
  \<open>s.split(sep)\<close> for a non-empty separator: cut at every occurrence, leftmost first
  and without overlap. (Python raises ValueError for an empty separator; the program
  only passes a constant of four characters.)
\<close>

fun str_split :: "str \<Rightarrow> str \<Rightarrow> str list" where
  "str_split sep [] = [[]]"
| "str_split sep (c # cs) =
     (if sep \<noteq> [] \<and> prefix sep (c # cs)
      then [] # str_split sep (drop (length sep) (c # cs))
      else (case str_split sep cs of [] \<Rightarrow> [[c]] | p # ps \<Rightarrow> (c # p) # ps))"

text \<open>\<open>xs[i]\<close> for a non-negative index, \<open>xs[-1]\<close>, \<open>xs[1:-1]\<close> and \<open>xs[:-1]\<close>.\<close>

definition py_index :: "'a list \<Rightarrow> nat \<Rightarrow> error + 'a" where
  "py_index xs i = (if i < length xs then Inr (xs ! i) else Inl IndexError)"

definition py_last :: "'a list \<Rightarrow> error + 'a" where
  "py_last xs = (case xs of [] \<Rightarrow> Inl IndexError | _ # _ \<Rightarrow> Inr (last xs))"

definition slice_1_m1 :: "'a list \<Rightarrow> 'a list" where
  "slice_1_m1 xs = take (length xs - 2) (drop 1 xs)"

definition slice_m1 :: "'a list \<Rightarrow> 'a list" where
  "slice_m1 xs = take (length xs - 1) xs"

section \<open>The mail retriever: \<open>get_emails_by_subject\<close>\<close>

text \<open>
  What the mail provider returns for one message id: the headers, the optional list of
  parts and the optional top-level body with its optional data. \<open>fnow\<close> is what
  \<open>datetime.now()\<close> reads while this message is processed.
\<close>

record part =
  mimeType :: str
  part_data :: "str option"

record payload =
  headers :: "(str \<times> str) list"
  parts :: "part list option"
  payload_body :: "str option option"

record fetched =
  fid :: str
  fpayload :: payload
  fnow :: int

text \<open>
  A \<open>datetime\<close> is offset-aware (an instant) or naive (a wall-clock reading). Every
  format of the program holds \<open>%z\<close>, so a parsed date is aware; \<open>datetime.now()\<close>
  is naive. Python refuses to order an aware and a naive value.
\<close>

datatype datetime = Aware int | Naive int

fun dt_lt :: "datetime \<Rightarrow> datetime \<Rightarrow> error + bool" where
  "dt_lt (Aware a) (Aware b) = Inr (a < b)"
| "dt_lt (Naive a) (Naive b) = Inr (a < b)"
| "dt_lt _ _ = Inl TypeError"

record email =
  msg_id :: str
  subject :: str
  sender :: str
  date :: datetime
  email_body :: str

text \<open>Lines 85, 86 and 89: the first header of the given name, or the default.\<close>

fun header_value :: "(str \<times> str) list \<Rightarrow> str \<Rightarrow> str \<Rightarrow> str" where
  "header_value [] name dflt = dflt"
| "header_value ((n, v) # hs) name dflt = (if n = name then v else header_value hs name dflt)"

definition paren_rx :: rx where
  \<comment> \<open>\<open>\([^)]*\)\<close>\<close>
  "paren_rx = Seq (Atom (Lit 40)) (Seq (Star (NoneOf [41])) (Atom (Lit 41)))"

definition date_formats :: "str list" where
  "date_formats =
     [ascii ''%a, %d %b %Y %H:%M:%S %z'',
      ascii ''%a, %d %b %Y %H:%M:%S %z (%Z)'',
      ascii ''%d %b %Y %H:%M:%S %z'']"

text \<open>
  Lines 99 to 106. \<open>strptime\<close> is the library's parser, a parameter: it answers the
  instant, or the exception it raises. ValueError moves on to the next format; any
  other exception leaves the loop.
\<close>

fun try_formats :: "(str \<Rightarrow> str \<Rightarrow> error + int) \<Rightarrow> str \<Rightarrow> str list \<Rightarrow> error + int option" where
  "try_formats strptime date_str [] = Inr None"
| "try_formats strptime date_str (fmt # fmts) =
     (let cleaned_date = strip (re_sub paren_rx [] date_str)
      in case strptime cleaned_date fmt of
           Inr t \<Rightarrow> Inr (Some t)
         | Inl e \<Rightarrow> if e = ValueError then try_formats strptime date_str fmts else Inl e)"

text \<open>Lines 90 to 113: the normalized date; both failure paths read the clock.\<close>

definition normalize_date :: "(str \<Rightarrow> str \<Rightarrow> error + int) \<Rightarrow> int \<Rightarrow> str \<Rightarrow> datetime" where
  "normalize_date strptime now date_str =
     (case try_formats strptime date_str date_formats of
        Inr (Some t) \<Rightarrow> Aware t
      | Inr None \<Rightarrow> Naive now
      | Inl e \<Rightarrow> Naive now)"

text \<open>
  Lines 116 to 123. \<open>decode\<close> stands for \<open>base64.urlsafe_b64decode(...).decode('utf-8')\<close>,
  a parameter. A \<open>text/plain\<close> part without data raises KeyError.
\<close>

fun first_plain :: "(str \<Rightarrow> error + str) \<Rightarrow> part list \<Rightarrow> error + str" where
  "first_plain decode [] = Inr []"
| "first_plain decode (p # ps) =
     (if mimeType p = ascii ''text/plain''
      then (case part_data p of None \<Rightarrow> Inl KeyError | Some d \<Rightarrow> decode d)
      else first_plain decode ps)"

definition body_of :: "(str \<Rightarrow> error + str) \<Rightarrow> payload \<Rightarrow> error + str" where
  "body_of decode pl =
     (case parts pl of
        Some ps \<Rightarrow> first_plain decode ps
      | None \<Rightarrow>
         (case payload_body pl of
            Some (Some d) \<Rightarrow> decode d
          | _ \<Rightarrow> Inr []))"

text \<open>Lines 77 to 133: the record built for one message.\<close>

definition email_data ::
  "(str \<Rightarrow> str \<Rightarrow> error + int) \<Rightarrow> (str \<Rightarrow> error + str) \<Rightarrow> fetched \<Rightarrow> error + email" where
  "email_data strptime decode f =
     (let hs = headers (fpayload f);
          subj = header_value hs (ascii ''Subject'') (ascii ''No Subject'');
          sndr = header_value hs (ascii ''From'') (ascii ''Unknown'');
          date_str = header_value hs (ascii ''Date'') [];
          date_obj = normalize_date strptime (fnow f) date_str
      in case body_of decode (fpayload f) of
           Inl e \<Rightarrow> Inl e
         | Inr b \<Rightarrow>
             Inr \<lparr>msg_id = fid f, subject = subj, sender = sndr, date = date_obj,
                  email_body = b\<rparr>)"

fun email_list ::
  "(str \<Rightarrow> str \<Rightarrow> error + int) \<Rightarrow> (str \<Rightarrow> error + str) \<Rightarrow> fetched list \<Rightarrow> error + email list" where
  "email_list strptime decode [] = Inr []"
| "email_list strptime decode (f # fs) =
     (case email_data strptime decode f of
        Inl e \<Rightarrow> Inl e
      | Inr x \<Rightarrow>
         (case email_list strptime decode fs of Inl e \<Rightarrow> Inl e | Inr xs \<Rightarrow> Inr (x # xs)))"

text \<open>
  Line 138: \<open>email_list.sort(key=lambda x: x['date'], reverse=True)\<close>. Python's sort is
  a stable comparison sort and stays stable under \<open>reverse=True\<close>; it compares keys
  with \<open><\<close> and an exception of a comparison leaves the sort. When every comparison
  succeeds its result is the one stable descending arrangement, which insertion
  computes as well.
\<close>

fun insert_desc :: "email \<Rightarrow> email list \<Rightarrow> error + email list" where
  "insert_desc x [] = Inr [x]"
| "insert_desc x (y # ys) =
     (case dt_lt (date x) (date y) of
        Inl e \<Rightarrow> Inl e
      | Inr True \<Rightarrow> (case insert_desc x ys of Inl e \<Rightarrow> Inl e | Inr zs \<Rightarrow> Inr (y # zs))
      | Inr False \<Rightarrow> Inr (x # y # ys))"

fun sort_desc :: "email list \<Rightarrow> error + email list" where
  "sort_desc [] = Inr []"
| "sort_desc (x # xs) =
     (case sort_desc xs of Inl e \<Rightarrow> Inl e | Inr ys \<Rightarrow> insert_desc x ys)"

text \<open>
  Lines 61 to 140, on the list of messages the provider returned for the query (in the
  provider's order).
\<close>

definition get_emails_by_subject ::
  "(str \<Rightarrow> str \<Rightarrow> error + int) \<Rightarrow> (str \<Rightarrow> error + str) \<Rightarrow> fetched list \<Rightarrow> error + email list" where
  "get_emails_by_subject strptime decode messages =
     (if messages = [] then Inr []
      else (case email_list strptime decode messages of
              Inl e \<Rightarrow> Inl e
            | Inr xs \<Rightarrow> sort_desc xs))"

section \<open>The article pipeline of \<open>main\<close>\<close>

text \<open>The patterns, as written in the source.\<close>

definition CR :: codepoint where "CR = 13"
definition LF :: codepoint where "LF = 10"

definition delim_rx :: rx where
  \<comment> \<open>\<open>(===|- - - )\<close>\<close>
  "delim_rx = Alt (lit (ascii ''==='')) (lit (ascii ''- - - ''))"

definition crlf_rx :: rx where
  \<comment> \<open>\<open>\r\n\<close>\<close>
  "crlf_rx = lit [CR, LF]"

definition angle_rx :: rx where
  \<comment> \<open>\<open>[<>]\<close>\<close>
  "angle_rx = Atom (OneOf (ascii ''<>''))"

definition http_rx :: rx where
  \<comment> \<open>\<open>http.*http\<close>\<close>
  "http_rx = Seq (lit (ascii ''http'')) (Seq (Star Dot) (lit (ascii ''http'')))"

definition ctga_rx :: rx where
  \<comment> \<open>\<open>&ct=ga&.*\<close>\<close>
  "ctga_rx = Seq (lit (ascii ''&ct=ga&'')) (Star Dot)"

subsection \<open>The digest window and the file names\<close>

text \<open>
  The start date is a \<open>datetime\<close>; only its calendar date is printed, and whole days
  are added, so the time of day plays no part. Python's dates run from year 1 to year
  9999, and an addition that leaves this range raises OverflowError.
\<close>

record pydate =
  year :: nat
  month :: nat
  day :: nat

definition is_leap :: "nat \<Rightarrow> bool" where
  "is_leap y \<longleftrightarrow> y mod 4 = 0 \<and> (y mod 100 \<noteq> 0 \<or> y mod 400 = 0)"

definition days_in_month :: "nat \<Rightarrow> nat \<Rightarrow> nat" where
  "days_in_month y m =
     (if m = 2 then (if is_leap y then 29 else 28)
      else if m \<in> {4, 6, 9, 11} then 30 else 31)"

definition valid_date :: "pydate \<Rightarrow> bool" where
  "valid_date d \<longleftrightarrow>
     1 \<le> year d \<and> year d \<le> 9999 \<and> 1 \<le> month d \<and> month d \<le> 12 \<and>
     1 \<le> day d \<and> day d \<le> days_in_month (year d) (month d)"

definition next_day :: "pydate \<Rightarrow> pydate" where
  "next_day d =
     (if day d < days_in_month (year d) (month d) then d\<lparr>day := day d + 1\<rparr>
      else if month d < 12 then d\<lparr>month := month d + 1, day := 1\<rparr>
      else \<lparr>year = year d + 1, month = 1, day = 1\<rparr>)"

text \<open>\<open>d + timedelta(days=n)\<close>, one day at a time.\<close>

fun add_days :: "pydate \<Rightarrow> nat \<Rightarrow> error + pydate" where
  "add_days d 0 = Inr d"
| "add_days d (Suc n) =
     (if year (next_day d) > 9999 then Inl OverflowError else add_days (next_day d) n)"

text \<open>
  The day count of the proleptic Gregorian calendar (\<open>date.toordinal\<close>), the measure
  against which the six days are counted.
\<close>

definition days_before_year :: "nat \<Rightarrow> int" where
  "days_before_year y =
     (int y - 1) * 365 + (int y - 1) div 4 - (int y - 1) div 100 + (int y - 1) div 400"

definition days_before_month :: "nat \<Rightarrow> nat \<Rightarrow> int" where
  "days_before_month y m =
     [0, 31, 59, 90, 120, 151, 181, 212, 243, 273, 304, 334] ! (m - 1)
       + (if m > 2 \<and> is_leap y then 1 else 0)"

definition toordinal :: "pydate \<Rightarrow> int" where
  "toordinal d = days_before_year (year d) + days_before_month (year d) (month d) + int (day d)"

text \<open>
  \<open>strftime('%Y/%m/%d')\<close>. The fields are formatted by the C library of the platform;
  the model is CPython 3.11 on glibc: \<open>%m\<close> and \<open>%d\<close> are two digits, zero-padded,
  and \<open>%Y\<close> is the year as a decimal number with no padding, so a year below 1000
  has fewer than four digits.
\<close>

definition digit :: "nat \<Rightarrow> codepoint" where
  "digit n = 48 + n mod 10"

fun decimal :: "nat \<Rightarrow> str" where
  "decimal n = (if n < 10 then [digit n] else decimal (n div 10) @ [digit n])"

declare decimal.simps [simp del]

definition pad2 :: "nat \<Rightarrow> str" where
  "pad2 n = [digit (n div 10), digit n]"

definition strftime_Ymd :: "pydate \<Rightarrow> str" where
  "strftime_Ymd d = decimal (year d) @ ascii ''/'' @ pad2 (month d) @ ascii ''/'' @ pad2 (day d)"

text \<open>
  \<open>s.replace(old, new)\<close> for a non-empty \<open>old\<close>: every occurrence, leftmost first and
  without overlap. (The program passes the constants \<open>'/'\<close> and \<open>'.txt'\<close>.)
\<close>

fun str_replace :: "str \<Rightarrow> str \<Rightarrow> str \<Rightarrow> str" where
  "str_replace old new [] = []"
| "str_replace old new (c # cs) =
     (if old \<noteq> [] \<and> prefix old (c # cs)
      then new @ str_replace old new (drop (length old) (c # cs))
      else c # str_replace old new cs)"

text \<open>
  The ordinal of the last representable date, and the renderings the properties are
  stated with: \<open>digits_Ymd\<close> is what \<open>strftime('%Y/%m/%d')\<close> prints, without the
  slashes; \<open>yyyy_mm_dd\<close> and \<open>yyyymmdd\<close> are the formats \<open>YYYY/MM/DD\<close> and
  \<open>YYYYMMDD\<close> as the specification writes them, with a year of four digits.
\<close>

definition max_ordinal :: int where
  "max_ordinal = toordinal \<lparr>year = 9999, month = 12, day = 31\<rparr>"

definition digits_Ymd :: "pydate \<Rightarrow> str" where
  "digits_Ymd d = decimal (year d) @ pad2 (month d) @ pad2 (day d)"

definition pad4 :: "nat \<Rightarrow> str" where
  "pad4 n = [digit (n div 1000), digit (n div 100), digit (n div 10), digit n]"

definition yyyy_mm_dd :: "pydate \<Rightarrow> str" where
  "yyyy_mm_dd d = pad4 (year d) @ ascii ''/'' @ pad2 (month d) @ ascii ''/'' @ pad2 (day d)"

definition yyyymmdd :: "pydate \<Rightarrow> str" where
  "yyyymmdd d = pad4 (year d) @ pad2 (month d) @ pad2 (day d)"

record window =
  after_date_text :: str
  before_date_text :: str
  query :: str
  output_filename :: str
  output_filename_formatted :: str

text \<open>Lines 149 to 151, 179 to 181 and 225.\<close>

definition window_of :: "pydate \<Rightarrow> str \<Rightarrow> error + window" where
  "window_of after_date subject_filter =
     (case add_days after_date 6 of
        Inl e \<Rightarrow> Inl e
      | Inr before_date \<Rightarrow>
          (let a = strftime_Ymd after_date;
               b = strftime_Ymd before_date;
               q = ascii ''subject:'' @ subject_filter @ ascii '' after:'' @ a
                     @ ascii '' before:'' @ b;
               a' = str_replace (ascii ''/'') [] a;
               b' = str_replace (ascii ''/'') [] b;
               fn = ascii ''output_'' @ a' @ ascii ''-'' @ b' @ ascii ''.txt''
           in Inr \<lparr>after_date_text = a, before_date_text = b, query = q,
                   output_filename = fn,
                   output_filename_formatted =
                     str_replace (ascii ''.txt'') (ascii ''_formatted.txt'') fn\<rparr>))"

subsection \<open>The extraction pass\<close>

text \<open>Lines 165 to 167: the three substitutions applied to an extracted URL.\<close>

definition canonicalize :: "str \<Rightarrow> str" where
  "canonicalize url =
     re_sub ctga_rx [] (re_sub http_rx (ascii ''http'') (re_sub angle_rx [] url))"

text \<open>
  Line 161: the article blocks of one message body. The fifth element of the split is
  read without a check, so a shorter split raises IndexError.
\<close>

definition blocks_of :: "str \<Rightarrow> error + str list" where
  "blocks_of body =
     (case py_index (re_split delim_rx True body) 4 of
        Inl e \<Rightarrow> Inl e
      | Inr seg \<Rightarrow> Inr (slice_1_m1 (str_split [CR, LF, CR, LF] seg)))"

text \<open>Lines 163 and 164: the summary and the URL of one block, before canonicalization.\<close>

definition block_fields :: "str \<Rightarrow> error + (str \<times> str)" where
  "block_fields a =
     (case py_last (re_split crlf_rx False a) of
        Inl e \<Rightarrow> Inl e
      | Inr u \<Rightarrow> Inr (strip (concat (slice_m1 (re_split crlf_rx False a))), strip u))"

text \<open>
  Lines 161 to 164 for one body: the fields of all its blocks, in order. (The loop
  interleaves this with the gate; \<open>add_blocks_fields\<close> below shows that it computes
  the same.)
\<close>

fun fields_of :: "str list \<Rightarrow> error + (str \<times> str) list" where
  "fields_of [] = Inr []"
| "fields_of (a # arts) =
     (case block_fields a of
        Inl e \<Rightarrow> Inl e
      | Inr f \<Rightarrow> (case fields_of arts of Inl e \<Rightarrow> Inl e | Inr fs \<Rightarrow> Inr (f # fs)))"

definition extract_articles :: "str \<Rightarrow> error + (str \<times> str) list" where
  "extract_articles b = (case blocks_of b of Inl e \<Rightarrow> Inl e | Inr arts \<Rightarrow> fields_of arts)"

record article =
  body :: str
  url :: str

text \<open>
  Lines 168 to 173, the deduplication gate on the state \<open>(urls, articles)\<close>: an article
  is appended, and its URL recorded, only when the URL has not been seen.
\<close>

definition gate :: "str list \<times> article list \<Rightarrow> str \<Rightarrow> str \<Rightarrow> str list \<times> article list" where
  "gate st b u =
     (if u \<notin> set (fst st)
      then (fst st @ [u], snd st @ [\<lparr>body = b, url = u\<rparr>])
      else st)"

text \<open>Lines 162 to 173: one pass of the inner loop, and the inner loop.\<close>

definition add_block :: "str list \<times> article list \<Rightarrow> str \<Rightarrow> error + (str list \<times> article list)" where
  "add_block st a =
     (case block_fields a of
        Inl e \<Rightarrow> Inl e
      | Inr (b, u) \<Rightarrow> Inr (gate st b (canonicalize u)))"

fun add_blocks :: "str list \<times> article list \<Rightarrow> str list \<Rightarrow> error + (str list \<times> article list)" where
  "add_blocks st [] = Inr st"
| "add_blocks st (a # arts) =
     (case add_block st a of Inl e \<Rightarrow> Inl e | Inr st' \<Rightarrow> add_blocks st' arts)"

text \<open>Lines 159 to 173: the outer loop over the bodies of the retrieved messages.\<close>

fun add_emails :: "str list \<times> article list \<Rightarrow> str list \<Rightarrow> error + (str list \<times> article list)" where
  "add_emails st [] = Inr st"
| "add_emails st (b # bodies) =
     (case blocks_of b of
        Inl e \<Rightarrow> Inl e
      | Inr arts \<Rightarrow>
          (case add_blocks st arts of Inl e \<Rightarrow> Inl e | Inr st' \<Rightarrow> add_emails st' bodies))"

definition collect_articles :: "str list \<Rightarrow> error + (str list \<times> article list)" where
  "collect_articles bodies = add_emails ([], []) bodies"

text \<open>Lines 154 to 173: the retrieval followed by the pass over the bodies.\<close>

definition digest_articles ::
  "(str \<Rightarrow> str \<Rightarrow> error + int) \<Rightarrow> (str \<Rightarrow> error + str) \<Rightarrow> fetched list \<Rightarrow> error + article list" where
  "digest_articles strptime decode messages =
     (case get_emails_by_subject strptime decode messages of
        Inl e \<Rightarrow> Inl e
      | Inr emails \<Rightarrow>
         (case collect_articles (map email_body emails) of
            Inl e \<Rightarrow> Inl e
          | Inr st \<Rightarrow> Inr (snd st)))"

text \<open>Lines 175 to 177: the article part of the raw digest.\<close>

fun news_text :: "article list \<Rightarrow> str" where
  "news_text [] = []"
| "news_text (a # as) = body a @ [LF] @ url a @ [LF, LF] @ news_text as"

subsection \<open>Notions the properties are stated with\<close>

text \<open>
  The article of one block (summary, canonical URL), and the articles of a list of
  bodies in discovery order: message by message, block by block.
\<close>

definition article_of :: "str \<Rightarrow> article" where
  "article_of a =
     \<lparr>body = strip (concat (slice_m1 (re_split crlf_rx False a))),
      url = canonicalize (strip (last (re_split crlf_rx False a)))\<rparr>"

definition discovered :: "str list \<Rightarrow> article list" where
  "discovered bodies =
     concat (map (\<lambda>b. case blocks_of b of Inl e \<Rightarrow> [] | Inr arts \<Rightarrow> map article_of arts) bodies)"

text \<open>
  The first occurrences: the elements of a list whose URL no earlier element carries,
  in the order of the list.
\<close>

definition kept_first :: "article list \<Rightarrow> article list" where
  "kept_first xs =
     map (\<lambda>i. xs ! i) (filter (\<lambda>i. url (xs ! i) \<notin> url ` set (take i xs)) [0..<length xs])"

text \<open>The same with a set of URLs taken as already seen.\<close>

definition kept_from :: "str set \<Rightarrow> article list \<Rightarrow> article list" where
  "kept_from S xs =
     map (\<lambda>i. xs ! i) (filter (\<lambda>i. url (xs ! i) \<notin> S \<union> url ` set (take i xs)) [0..<length xs])"

text \<open>
  Sample data: a newer digest with two articles, an older digest whose one article
  carries, behind a redirect wrapper, the URL of the first; and a mail that is not a
  digest.
\<close>

definition crlf :: str where "crlf = [CR, LF]"

definition body_new :: str where
  "body_new = ascii ''===N==='' @ crlf @ crlf @ ascii ''T1'' @ crlf @ ascii ''<http://a/x>''
     @ crlf @ crlf @ ascii ''T2'' @ crlf @ ascii ''S2'' @ crlf @ ascii ''<http://b/y>''
     @ crlf @ crlf @ ascii ''- - - f''"

definition body_old :: str where
  "body_old = ascii ''===O==='' @ crlf @ crlf @ ascii ''T3'' @ crlf
     @ ascii ''<http://g/u?q=http://a/x&ct=ga&cd=1>'' @ crlf @ crlf @ ascii ''- - - f''"

definition body_plain :: str where
  "body_plain = ascii ''=== Sale! Only today'' @ crlf @ ascii ''http://shop.example/''"

definition art_A :: article where "art_A = \<lparr>body = ascii ''T1'', url = ascii ''http://a/x''\<rparr>"

definition art_B :: article where "art_B = \<lparr>body = ascii ''T2S2'', url = ascii ''http://b/y''\<rparr>"

definition art_C :: article where "art_C = \<lparr>body = ascii ''T3'', url = ascii ''http://a/x''\<rparr>"

text \<open>
  A datetime is aware or naive; \<open>not_earlier a b\<close>: the dates of two mails can be
  compared and that of \<open>a\<close> is not before that of \<open>b\<close>.
\<close>

definition is_aware :: "datetime \<Rightarrow> bool" where
  "is_aware d = (case d of Aware t \<Rightarrow> True | Naive t \<Rightarrow> False)"

definition not_earlier :: "email \<Rightarrow> email \<Rightarrow> bool" where
  "not_earlier a b \<longleftrightarrow> dt_lt (date a) (date b) = Inr False"

text \<open>The value of the first header of a name, or a default.\<close>

definition header_or :: "payload \<Rightarrow> string \<Rightarrow> str \<Rightarrow> str" where
  "header_or pl name dflt = (case map_of (headers pl) (ascii name) of None \<Rightarrow> dflt | Some v \<Rightarrow> v)"

text \<open>
  Sample mails. The sample parser knows two date strings (and what instants they are,
  in seconds since the epoch) and raises ValueError for everything else; the sample
  data are given decoded.
\<close>

definition strptime_sample :: "str \<Rightarrow> str \<Rightarrow> error + int" where
  "strptime_sample s fmt =
     (if fmt = ascii ''%a, %d %b %Y %H:%M:%S %z'' \<and> s = ascii ''Mon, 05 May 2025 10:00:00 +0900''
      then Inr 1746406800
      else if fmt = ascii ''%a, %d %b %Y %H:%M:%S %z'' \<and> s = ascii ''Tue, 06 May 2025 09:30:00 +0000''
      then Inr 1746523800
      else Inl ValueError)"

definition decode_sample :: "str \<Rightarrow> error + str" where
  "decode_sample d = Inr d"

text \<open>
  The library's decoder rejects data that is no base64 text or no UTF-8 text. The
  strict sample decoder rejects the data of the HTML part of the sample mails and
  hands every other string back.
\<close>

definition decode_strict :: "str \<Rightarrow> error + str" where
  "decode_strict d = (if d = ascii ''<p>x</p>'' then Inl DecodeError else Inr d)"

definition msg_dated :: fetched where
  "msg_dated =
     \<lparr>fid = ascii ''m1'',
      fpayload = \<lparr>headers = [(ascii ''From'', ascii ''alerts@example.com''),
                            (ascii ''Subject'', ascii ''Alert - AWS''),
                            (ascii ''Date'', ascii ''Mon, 05 May 2025 10:00:00 +0900 (JST)'')],
                 parts = None,
                 payload_body = Some (Some body_old)\<rparr>,
      fnow = 1746600000\<rparr>"

definition msg_later :: fetched where
  "msg_later =
     \<lparr>fid = ascii ''m2'',
      fpayload = \<lparr>headers = [(ascii ''Date'', ascii ''Tue, 06 May 2025 09:30:00 +0000''),
                            (ascii ''Subject'', ascii ''Alert - AWS'')],
                 parts = Some [\<lparr>mimeType = ascii ''text/plain'', part_data = Some body_new\<rparr>],
                 payload_body = Some None\<rparr>,
      fnow = 1746600001\<rparr>"

definition msg_undated :: fetched where
  "msg_undated =
     \<lparr>fid = ascii ''m3'',
      fpayload = \<lparr>headers = [(ascii ''From'', ascii ''alerts@example.com'')],
                 parts = Some [\<lparr>mimeType = ascii ''text/html'', part_data = Some (ascii ''<p>x</p>'')\<rparr>,
                               \<lparr>mimeType = ascii ''text/plain'', part_data = Some (ascii ''first'')\<rparr>,
                               \<lparr>mimeType = ascii ''text/plain'', part_data = Some (ascii ''second'')\<rparr>],
                 payload_body = Some (Some (ascii ''top''))\<rparr>,
      fnow = 1746600002\<rparr>"

definition msg_html_only :: fetched where
  "msg_html_only =
     \<lparr>fid = ascii ''m4'',
      fpayload = \<lparr>headers = [],
                 parts = Some [\<lparr>mimeType = ascii ''text/html'', part_data = Some (ascii ''<p>x</p>'')\<rparr>],
                 payload_body = Some (Some (ascii ''top''))\<rparr>,
      fnow = 1746600003\<rparr>"

definition mail_dated :: email where
  "mail_dated = \<lparr>msg_id = ascii ''m1'', subject = ascii ''Alert - AWS'',
                  sender = ascii ''alerts@example.com'', date = Aware 1746406800,
                  email_body = body_old\<rparr>"

definition mail_later :: email where
  "mail_later = \<lparr>msg_id = ascii ''m2'', subject = ascii ''Alert - AWS'',
                  sender = ascii ''Unknown'', date = Aware 1746523800,
                  email_body = body_new\<rparr>"

definition mail_undated :: email where
  "mail_undated = \<lparr>msg_id = ascii ''m3'', subject = ascii ''No Subject'',
                    sender = ascii ''alerts@example.com'', date = Naive 1746600002,
                    email_body = ascii ''first''\<rparr>"

text \<open>
  Notions about patterns: a pattern that cannot match the empty string, a pattern none
  of whose atoms accepts a given code point, and a string in which a pattern matches
  nowhere.
\<close>

fun nonnull :: "rx \<Rightarrow> bool" where
  "nonnull Eps = False"
| "nonnull (Atom a) = True"
| "nonnull (Star a) = False"
| "nonnull (Seq p q) = (nonnull p \<or> nonnull q)"
| "nonnull (Alt p q) = (nonnull p \<and> nonnull q)"

fun rejects :: "rx \<Rightarrow> codepoint \<Rightarrow> bool" where
  "rejects Eps c = True"
| "rejects (Atom a) c = (\<not> ok a c)"
| "rejects (Star a) c = (\<not> ok a c)"
| "rejects (Seq p q) c = (rejects p c \<and> rejects q c)"
| "rejects (Alt p q) c = (rejects p c \<and> rejects q c)"

definition nomatch :: "rx \<Rightarrow> str \<Rightarrow> bool" where
  "nomatch r s \<longleftrightarrow> (\<forall>v. suffix v s \<longrightarrow> re_match r v = [])"

text \<open>
  The canonicalization in the words of its description, for one line of text: the text
  before the first occurrence of a token and the text after its last occurrence;
  the collapse replaces what lies from the first \<open>http\<close> to the last \<open>http\<close> after
  it by one \<open>http\<close> (and changes nothing when there is no second \<open>http\<close>); the
  truncation keeps what lies before the first \<open>&ct=ga&\<close>.
\<close>

fun before_first :: "str \<Rightarrow> str \<Rightarrow> str option" where
  "before_first p [] = (if p = [] then Some [] else None)"
| "before_first p (c # cs) =
     (if prefix p (c # cs) then Some []
      else (case before_first p cs of None \<Rightarrow> None | Some a \<Rightarrow> Some (c # a)))"

fun after_last :: "str \<Rightarrow> str \<Rightarrow> str option" where
  "after_last p [] = (if p = [] then Some [] else None)"
| "after_last p (c # cs) =
     (case after_last p cs of
        Some z \<Rightarrow> Some z
      | None \<Rightarrow> if prefix p (c # cs) then Some (drop (length p) (c # cs)) else None)"

definition spec_collapse :: "str \<Rightarrow> str" where
  "spec_collapse y =
     (case before_first (ascii ''http'') y of
        None \<Rightarrow> y
      | Some pre \<Rightarrow>
         (case after_last (ascii ''http'') (drop (length pre + 4) y) of
            None \<Rightarrow> y
          | Some z \<Rightarrow> pre @ ascii ''http'' @ z))"

definition spec_truncate :: "str \<Rightarrow> str" where
  "spec_truncate y = (case before_first (ascii ''&ct=ga&'') y of None \<Rightarrow> y | Some pre \<Rightarrow> pre)"

definition spec_canonicalize :: "str \<Rightarrow> str" where
  "spec_canonicalize x =
     spec_truncate (spec_collapse (filter (\<lambda>c. c \<notin> set (ascii ''<>'')) x))"

text \<open>
  The part \<open>.*http\<close> of the wrapper pattern, and the strings in which \<open>http\<close> occurs
  twice without overlap.
\<close>

definition tail_rx :: rx where
  "tail_rx = Seq (Star Dot) (lit (ascii ''http''))"

definition twice :: "str \<Rightarrow> bool" where
  "twice s \<longleftrightarrow> (\<exists>a w b. s = a @ ascii ''http'' @ w @ ascii ''http'' @ b)"

text \<open>
  Notions for building a digest body: no occurrence of a token starts inside a text that
  is followed by \<open>rest\<close>; a delimiter stands at the start of a text; no delimiter
  starts inside a text; texts joined with a separator; the text of one article block,
  its lines and then its URL joined with line breaks.
\<close>

fun free_before :: "str \<Rightarrow> str \<Rightarrow> str \<Rightarrow> bool" where
  "free_before p [] rest = True"
| "free_before p (c # cs) rest = (\<not> prefix p (c # cs @ rest) \<and> free_before p cs rest)"

definition delim_at :: "str \<Rightarrow> bool" where
  "delim_at u \<longleftrightarrow> prefix (ascii ''==='') u \<or> prefix (ascii ''- - - '') u"

definition no_delim_inside :: "str \<Rightarrow> str \<Rightarrow> bool" where
  "no_delim_inside s rest \<longleftrightarrow>
     free_before (ascii ''==='') s rest \<and> free_before (ascii ''- - - '') s rest"

fun join :: "str \<Rightarrow> str list \<Rightarrow> str" where
  "join sep [] = []"
| "join sep [x] = x"
| "join sep (x # y # ys) = x @ sep @ join sep (y # ys)"

definition block_text :: "str list \<times> str \<Rightarrow> str" where
  "block_text b = join crlf (fst b @ [snd b])"

text \<open>The same for a pattern: it matches at no position inside a text followed by \<open>rest\<close>.\<close>

fun unmatched :: "rx \<Rightarrow> str \<Rightarrow> str \<Rightarrow> bool" where
  "unmatched r [] rest = True"
| "unmatched r (c # cs) rest = (re_match r (c # cs @ rest) = [] \<and> unmatched r cs rest)"

text \<open>The gate run over a list of articles.\<close>

definition gate_all :: "str list \<times> article list \<Rightarrow> article list \<Rightarrow> str list \<times> article list" where
  "gate_all st xs = foldl (\<lambda>st x. gate st (body x) (url x)) st xs"

text \<open>
  The states of the extraction pass: the empty state, and every state that one more
  pass of the inner loop produces from a state of the pass.
\<close>

inductive reach :: "str list \<times> article list \<Rightarrow> bool" where
  reach_init: "reach ([], [])"
| reach_step: "reach st \<Longrightarrow> add_block st a = Inr st' \<Longrightarrow> reach st'"

section \<open>Properties of the digest window\<close>

lemma div_step:
  fixes y k :: int
  assumes "0 < k"
  shows "y div k = (y - 1) div k + (if y mod k = 0 then 1 else 0)"
proof -
  define q where "q = (y - 1) div k"
  define r where "r = (y - 1) mod k"
  have y: "y = k * q + (r + 1)" and r: "0 \<le> r" "r < k"
    using assms by (simp_all add: q_def r_def)
  show ?thesis
  proof (cases "r + 1 = k")
    case True
    with y have y': "y = k * (q + 1) + 0" by (simp add: algebra_simps)
    have "y div k = q + 1" by (rule int_div_pos_eq[OF y']) (use assms in auto)
    moreover have "y mod k = 0" by (rule int_mod_pos_eq[OF y']) (use assms in auto)
    ultimately show ?thesis by (simp add: q_def)
  next
    case False
    with r have r1: "0 \<le> r + 1" "r + 1 < k" by auto
    have "y div k = q" by (rule int_div_pos_eq[OF y r1])
    moreover have "y mod k = r + 1" by (rule int_mod_pos_eq[OF y r1])
    ultimately show ?thesis using r by (simp add: q_def)
  qed
qed

lemma dby_Suc: "days_before_year (Suc y) = days_before_year y + (if is_leap y then 366 else 365)"
proof -
  let ?y = "int y"
  have m4: "?y mod 4 = 0" if "?y mod 100 = 0"
    using that mod_mod_cancel[of 4 100 ?y] by simp
  have m100: "?y mod 100 = 0" if "?y mod 400 = 0"
    using that mod_mod_cancel[of 100 400 ?y] by simp
  have l: "is_leap y \<longleftrightarrow> (?y mod 4 = 0 \<and> (?y mod 100 \<noteq> 0 \<or> ?y mod 400 = 0))"
  proof -
    have e: "(?y mod int k = 0) = (y mod k = 0)" for k
      unfolding zmod_int[symmetric] by simp
    from e[of 4] e[of 100] e[of 400] show ?thesis unfolding is_leap_def by simp
  qed
  have d4: "?y div 4 = (?y - 1) div 4 + (if ?y mod 4 = 0 then 1 else 0)"
    by (rule div_step) simp
  have d100: "?y div 100 = (?y - 1) div 100 + (if ?y mod 100 = 0 then 1 else 0)"
    by (rule div_step) simp
  have d400: "?y div 400 = (?y - 1) div 400 + (if ?y mod 400 = 0 then 1 else 0)"
    by (rule div_step) simp
  have "days_before_year (Suc y) = ?y * 365 + ?y div 4 - ?y div 100 + ?y div 400"
    by (simp add: days_before_year_def)
  also have "\<dots> = days_before_year y + (if is_leap y then 366 else 365)"
  proof (cases "?y mod 4 = 0")
    case False
    with m4 m100 have "?y mod 100 \<noteq> 0" "?y mod 400 \<noteq> 0" by auto
    with False show ?thesis
      unfolding d4 d100 d400 l days_before_year_def by simp
  next
    case True
    note t4 = this
    show ?thesis
    proof (cases "?y mod 100 = 0")
      case False
      with m100 have "?y mod 400 \<noteq> 0" by auto
      with False t4 show ?thesis
        unfolding d4 d100 d400 l days_before_year_def by simp
    next
      case True
      with t4 show ?thesis
        unfolding d4 d100 d400 l days_before_year_def by (cases "?y mod 400 = 0") simp_all
    qed
  qed
  finally show ?thesis .
qed

lemma dbm_Suc:
  assumes "1 \<le> m" "m < 12"
  shows "days_before_month y (m + 1) = days_before_month y m + int (days_in_month y m)"
proof -
  from assms consider "m = 1" | "m = 2" | "m = 3" | "m = 4" | "m = 5" | "m = 6" | "m = 7"
    | "m = 8" | "m = 9" | "m = 10" | "m = 11"
    by atomize_elim presburger
  then show ?thesis
    by cases (simp_all add: days_before_month_def days_in_month_def)
qed

lemma dbm_12: "days_before_month y 12 = (if is_leap y then 335 else 334)"
  by (simp add: days_before_month_def)

lemma dbm_1: "days_before_month y (Suc 0) = 0"
  by (simp add: days_before_month_def)

lemma toordinal_next_day:
  assumes "valid_date d"
  shows "toordinal (next_day d) = toordinal d + 1"
proof (cases "day d < days_in_month (year d) (month d)")
  case True
  then show ?thesis by (simp add: next_day_def toordinal_def)
next
  case False
  with assms have dd: "day d = days_in_month (year d) (month d)"
    by (simp add: valid_date_def)
  show ?thesis
  proof (cases "month d < 12")
    case True
    with assms have "days_before_month (year d) (month d + 1) =
        days_before_month (year d) (month d) + int (days_in_month (year d) (month d))"
      by (intro dbm_Suc) (simp_all add: valid_date_def)
    with True dd show ?thesis
      by (simp add: next_day_def toordinal_def)
  next
    case False
    with assms have m: "month d = 12" by (simp add: valid_date_def)
    with dd have "day d = 31" by (simp add: days_in_month_def)
    with m dd show ?thesis
      using dby_Suc[of "year d"]
      by (simp add: next_day_def toordinal_def dbm_1 dbm_12)
  qed
qed

lemma valid_next_day:
  assumes "valid_date d" "year (next_day d) \<le> 9999"
  shows "valid_date (next_day d)"
proof (cases "day d < days_in_month (year d) (month d)")
  case True
  with assms show ?thesis by (simp add: valid_date_def next_day_def)
next
  case False
  note nd = this
  show ?thesis
  proof (cases "month d < 12")
    case True
    with nd assms show ?thesis by (simp add: valid_date_def next_day_def days_in_month_def)
  next
    case False
    with nd assms show ?thesis by (simp add: valid_date_def next_day_def days_in_month_def)
  qed
qed

lemma max_ordinal_val: "max_ordinal = 3652059"
  by (simp add: max_ordinal_def toordinal_def days_before_year_def days_before_month_def is_leap_def)

lemma next_day_overflow:
  assumes "valid_date d" "year (next_day d) > 9999"
  shows "toordinal d = max_ordinal"
proof -
  from assms have "next_day d = \<lparr>year = 10000, month = 1, day = 1\<rparr>"
    by (auto simp: next_day_def valid_date_def split: if_splits)
  then have "toordinal (next_day d) = 3652060"
    by (simp add: toordinal_def days_before_year_def days_before_month_def)
  with toordinal_next_day[OF assms(1)] show ?thesis by (simp add: max_ordinal_val)
qed

lemma add_days_ok:
  "valid_date d \<Longrightarrow> add_days d n = Inr e \<Longrightarrow> valid_date e \<and> toordinal e = toordinal d + int n"
proof (induction n arbitrary: d)
  case 0
  then show ?case by simp
next
  case (Suc n)
  from Suc.prems(2) have y: "year (next_day d) \<le> 9999" and r: "add_days (next_day d) n = Inr e"
    by (auto split: if_splits)
  from valid_next_day[OF Suc.prems(1) y] have v: "valid_date (next_day d)" .
  from Suc.IH[OF v r] toordinal_next_day[OF Suc.prems(1)] show ?case by simp
qed

lemma add_days_total:
  "valid_date d \<Longrightarrow> toordinal d + int n \<le> max_ordinal \<Longrightarrow> \<exists>e. add_days d n = Inr e"
proof (induction n arbitrary: d)
  case 0
  then show ?case by simp
next
  case (Suc n)
  have y: "year (next_day d) \<le> 9999"
  proof (rule ccontr)
    assume "\<not> year (next_day d) \<le> 9999"
    then have "toordinal d = max_ordinal"
      using next_day_overflow[OF Suc.prems(1)] by simp
    with Suc.prems(2) show False by simp
  qed
  from valid_next_day[OF Suc.prems(1) y] have v: "valid_date (next_day d)" .
  from Suc.prems(2) toordinal_next_day[OF Suc.prems(1)]
  have "toordinal (next_day d) + int n \<le> max_ordinal" by simp
  from Suc.IH[OF v this] y show ?case by simp
qed

lemma add_days_error: "add_days d n = Inl x \<Longrightarrow> x = OverflowError"
  by (induction n arbitrary: d) (auto split: if_splits)

lemma str_replace_skip:
  "old \<noteq> [] \<Longrightarrow> hd old \<notin> set p \<Longrightarrow> str_replace old new (p @ s) = p @ str_replace old new s"
proof (induction p)
  case Nil
  then show ?case by simp
next
  case (Cons c p)
  then have "\<not> prefix old (c # p @ s)"
    by (cases old) auto
  with Cons show ?case by simp
qed

lemma str_replace_hit:
  "old \<noteq> [] \<Longrightarrow> str_replace old new (old @ s) = new @ str_replace old new s"
  by (cases old) simp_all

lemma digit_range: "48 \<le> digit n \<and> digit n \<le> 57"
  unfolding digit_def by (simp add: le_diff_conv2 add.commute) 

lemma decimal_digits: "c \<in> set (decimal n) \<Longrightarrow> 48 \<le> c \<and> c \<le> 57"
proof (induction n rule: decimal.induct)
  case (1 n)
  show ?case
  proof (cases "n < 10")
    case True
    with 1(2) digit_range[of n] show ?thesis by (simp add: decimal.simps[of n])
  next
    case False
    with 1(2) have "c \<in> set (decimal (n div 10)) \<or> c = digit n"
      by (auto simp: decimal.simps[of n])
    with 1(1)[OF False] digit_range[of n] show ?thesis by auto
  qed
qed

lemma pad_digits:
  "c \<in> set (pad2 n) \<Longrightarrow> 48 \<le> c \<and> c \<le> 57"
  "c \<in> set (pad4 n) \<Longrightarrow> 48 \<le> c \<and> c \<le> 57"
  using digit_range by (auto simp: pad2_def pad4_def)

text \<open>A year of four digits is printed as the format \<open>YYYY\<close>; a smaller one is shorter.\<close>

lemma decimal_pad4:
  assumes "1000 \<le> n" "n \<le> 9999"
  shows "decimal n = pad4 n"
proof -
  have d: "n div 10 div 10 = n div 100" "n div 100 div 10 = n div 1000"
    by (simp_all add: div_mult2_eq[symmetric])
  from assms have a: "\<not> n < 10" "\<not> n div 10 < 10" "\<not> n div 100 < 10" "n div 1000 < 10"
    by simp_all
  have "decimal n = decimal (n div 10) @ [digit n]"
    using a(1) by (simp add: decimal.simps[of n])
  also have "decimal (n div 10) = decimal (n div 100) @ [digit (n div 10)]"
    using a(2) by (simp add: decimal.simps[of "n div 10"] d)
  also have "decimal (n div 100) = decimal (n div 1000) @ [digit (n div 100)]"
    using a(3) by (simp add: decimal.simps[of "n div 100"] d)
  also have "decimal (n div 1000) = [digit (n div 1000)]"
    using a(4) by (simp add: decimal.simps[of "n div 1000"])
  finally show ?thesis by (simp add: pad4_def)
qed

lemma decimal_short:
  assumes "n < 1000"
  shows "length (decimal n) < 4"
proof -
  have d: "n div 10 div 10 = n div 100"
    by (simp add: div_mult2_eq[symmetric])
  from assms have a: "n div 100 < 10" by simp
  have 1: "length (decimal (n div 100)) = 1"
    using a by (simp add: decimal.simps[of "n div 100"])
  have 2: "length (decimal (n div 10)) \<le> 2"
    using 1 by (simp add: decimal.simps[of "n div 10"] d)
  show ?thesis
    using 2 by (simp add: decimal.simps[of n])
qed

lemma four_digits:
  assumes "1000 \<le> year d" "year d \<le> 9999"
  shows "strftime_Ymd d = yyyy_mm_dd d" "digits_Ymd d = yyyymmdd d"
  using decimal_pad4[OF assms]
  by (simp_all add: strftime_Ymd_def yyyy_mm_dd_def digits_Ymd_def yyyymmdd_def)

lemma fewer_digits:
  assumes "year d < 1000"
  shows "strftime_Ymd d \<noteq> yyyy_mm_dd d" "digits_Ymd d \<noteq> yyyymmdd d"
proof -
  have l: "length (strftime_Ymd d) < length (yyyy_mm_dd d)"
    "length (digits_Ymd d) < length (yyyymmdd d)"
    using decimal_short[OF assms]
    by (simp_all add: strftime_Ymd_def yyyy_mm_dd_def digits_Ymd_def yyyymmdd_def pad4_def)
  from l(1) show "strftime_Ymd d \<noteq> yyyy_mm_dd d" by auto
  from l(2) show "digits_Ymd d \<noteq> yyyymmdd d" by auto
qed

lemma next_day_year: "year d \<le> year (next_day d)"
  by (simp add: next_day_def)

lemma add_days_year: "add_days d n = Inr e \<Longrightarrow> year d \<le> year e"
proof (induction n arbitrary: d)
  case 0
  then show ?case by simp
next
  case (Suc n)
  from Suc.prems have "add_days (next_day d) n = Inr e"
    by (auto split: if_splits)
  from Suc.IH[OF this] next_day_year[of d] show ?case by simp
qed

lemma ascii_simps: "ascii [] = []" "ascii (c # cs) = of_char c # ascii cs"
  by (simp_all add: ascii_def)

lemma slash_free: "str_replace (ascii ''/'') [] (strftime_Ymd d) = digits_Ymd d"
proof -
  have ny: "hd [47::nat] \<notin> set (decimal n)" for n using decimal_digits[of 47 n] by auto
  have n2: "hd [47::nat] \<notin> set (pad2 n)" for n using pad_digits(1)[of 47 n] by auto
  have hit: "str_replace [47] [] (47 # z) = str_replace [47] [] z" for z
    by simp
  have s2: "str_replace [47] [] (pad2 n @ z) = pad2 n @ str_replace [47] [] z" for n z
    by (rule str_replace_skip[OF _ n2]) simp
  have sy: "str_replace [47] [] (decimal n @ z) = decimal n @ str_replace [47] [] z" for n z
    by (rule str_replace_skip[OF _ ny]) simp
  have "str_replace [47] [] (decimal (year d) @ 47 # pad2 (month d) @ 47 # pad2 (day d) @ [])
      = decimal (year d) @ pad2 (month d) @ pad2 (day d) @ []"
    unfolding sy hit s2 by simp
  then show ?thesis by (simp add: ascii_simps strftime_Ymd_def digits_Ymd_def)
qed

lemma digits_Ymd_digits: "c \<in> set (digits_Ymd d) \<Longrightarrow> 48 \<le> c \<and> c \<le> 57"
  unfolding digits_Ymd_def using pad_digits(1) decimal_digits by auto

lemma formatted_name:
  "str_replace (ascii ''.txt'') (ascii ''_formatted.txt'')
     (ascii ''output_'' @ digits_Ymd a @ ascii ''-'' @ digits_Ymd b @ ascii ''.txt'')
   = ascii ''output_'' @ digits_Ymd a @ ascii ''-'' @ digits_Ymd b @ ascii ''_formatted.txt''"
proof -
  let ?p = "ascii ''output_'' @ digits_Ymd a @ ascii ''-'' @ digits_Ymd b"
  let ?old = "ascii ''.txt''"
  have h: "hd ?old \<notin> set ?p"
    using digits_Ymd_digits[of 46 a] digits_Ymd_digits[of 46 b]
    by (auto simp: ascii_simps)
  have ne: "?old \<noteq> []" by (simp add: ascii_simps)
  have "str_replace ?old (ascii ''_formatted.txt'') (?p @ ?old @ [])
      = ?p @ ascii ''_formatted.txt'' @ str_replace ?old (ascii ''_formatted.txt'') []"
    unfolding str_replace_skip[OF ne h] str_replace_hit[OF ne] ..
  then show ?thesis by simp
qed

text \<open>What the window holds whenever it exists, in the program's own rendering.\<close>

lemma window_fields:
  assumes "valid_date start" "window_of start flt = Inr w"
  shows "\<exists>e. add_days start 6 = Inr e \<and> valid_date e \<and> toordinal e = toordinal start + 6 \<and>
            year start \<le> year e \<and>
            after_date_text w = strftime_Ymd start \<and>
            before_date_text w = strftime_Ymd e \<and>
            query w = ascii ''subject:'' @ flt @ ascii '' after:'' @ strftime_Ymd start
                        @ ascii '' before:'' @ strftime_Ymd e \<and>
            output_filename w =
              ascii ''output_'' @ digits_Ymd start @ ascii ''-'' @ digits_Ymd e @ ascii ''.txt'' \<and>
            output_filename_formatted w =
              ascii ''output_'' @ digits_Ymd start @ ascii ''-'' @ digits_Ymd e
                @ ascii ''_formatted.txt''"
proof -
  from assms(2) obtain e where e: "add_days start 6 = Inr e"
    by (auto simp: window_of_def split: sum.splits)
  from add_days_ok[OF assms(1) e] have ve: "valid_date e" and oe: "toordinal e = toordinal start + 6"
    by simp_all
  note ye = add_days_year[OF e]
  from assms(2) e have fields:
    "after_date_text w = strftime_Ymd start"
    "before_date_text w = strftime_Ymd e"
    "query w = ascii ''subject:'' @ flt @ ascii '' after:'' @ strftime_Ymd start
                        @ ascii '' before:'' @ strftime_Ymd e"
    "output_filename w =
       ascii ''output_'' @ digits_Ymd start @ ascii ''-'' @ digits_Ymd e @ ascii ''.txt''"
    "output_filename_formatted w =
       str_replace (ascii ''.txt'') (ascii ''_formatted.txt'')
         (ascii ''output_'' @ digits_Ymd start @ ascii ''-'' @ digits_Ymd e @ ascii ''.txt'')"
    by (auto simp: window_of_def Let_def slash_free)
  show ?thesis
    using e ve oe ye fields(1-4) fields(5)[unfolded formatted_name] by blast
qed

text \<open>
  Claim C8, as amended. For a valid start date from year 1000 on whose sixth following
  day is still a date (a start up to 9999-12-25), the window exists, its end date is a
  valid date exactly six days after the start, both dates stand in the query as
  \<open>YYYY/MM/DD\<close>, and the two file names are \<open>output_<start>-<end>.txt\<close> and
  \<open>output_<start>-<end>_formatted.txt\<close> with the dates as \<open>YYYYMMDD\<close>. For every
  valid start date, a window that exists ends exactly six days after the start and holds
  the dates as \<open>strftime\<close> prints them; before year 1000 that is not the format
  \<open>YYYY/MM/DD\<close>. The window exists whenever the sixth following day is a date, and the
  only other outcome is OverflowError, for a start date whose sixth following day lies
  beyond 9999-12-31.
\<close>

theorem window_six_days:
  assumes "valid_date start"
  shows "(1000 \<le> year start \<and> toordinal start + 6 \<le> max_ordinal \<longrightarrow>
       (\<exists>w e. window_of start flt = Inr w \<and> add_days start 6 = Inr e \<and> valid_date e \<and>
            toordinal e = toordinal start + 6 \<and>
            after_date_text w = yyyy_mm_dd start \<and>
            before_date_text w = yyyy_mm_dd e \<and>
            query w = ascii ''subject:'' @ flt @ ascii '' after:'' @ yyyy_mm_dd start
                        @ ascii '' before:'' @ yyyy_mm_dd e \<and>
            output_filename w =
              ascii ''output_'' @ yyyymmdd start @ ascii ''-'' @ yyyymmdd e @ ascii ''.txt'' \<and>
            output_filename_formatted w =
              ascii ''output_'' @ yyyymmdd start @ ascii ''-'' @ yyyymmdd e
                @ ascii ''_formatted.txt'')) \<and>
    (\<forall>w. window_of start flt = Inr w \<longrightarrow>
       (\<exists>e. add_days start 6 = Inr e \<and> valid_date e \<and> toordinal e = toordinal start + 6 \<and>
            after_date_text w = strftime_Ymd start \<and>
            before_date_text w = strftime_Ymd e \<and>
            query w = ascii ''subject:'' @ flt @ ascii '' after:'' @ strftime_Ymd start
                        @ ascii '' before:'' @ strftime_Ymd e \<and>
            output_filename w =
              ascii ''output_'' @ digits_Ymd start @ ascii ''-'' @ digits_Ymd e @ ascii ''.txt'' \<and>
            output_filename_formatted w =
              ascii ''output_'' @ digits_Ymd start @ ascii ''-'' @ digits_Ymd e
                @ ascii ''_formatted.txt'')) \<and>
    (year start < 1000 \<longrightarrow>
       strftime_Ymd start \<noteq> yyyy_mm_dd start \<and> digits_Ymd start \<noteq> yyyymmdd start) \<and>
    (toordinal start + 6 \<le> max_ordinal \<longrightarrow> (\<exists>w. window_of start flt = Inr w)) \<and>
    (\<forall>x. window_of start flt = Inl x \<longrightarrow> x = OverflowError \<and> max_ordinal < toordinal start + 6)"
proof -
  have ex: "\<exists>w. window_of start flt = Inr w" if "toordinal start + 6 \<le> max_ordinal"
  proof -
    from add_days_total[OF assms, of 6] that obtain e where "add_days start 6 = Inr e" by auto
    then show ?thesis by (simp add: window_of_def Let_def)
  qed
  have A: "\<exists>w e. window_of start flt = Inr w \<and> add_days start 6 = Inr e \<and> valid_date e \<and>
            toordinal e = toordinal start + 6 \<and>
            after_date_text w = yyyy_mm_dd start \<and>
            before_date_text w = yyyy_mm_dd e \<and>
            query w = ascii ''subject:'' @ flt @ ascii '' after:'' @ yyyy_mm_dd start
                        @ ascii '' before:'' @ yyyy_mm_dd e \<and>
            output_filename w =
              ascii ''output_'' @ yyyymmdd start @ ascii ''-'' @ yyyymmdd e @ ascii ''.txt'' \<and>
            output_filename_formatted w =
              ascii ''output_'' @ yyyymmdd start @ ascii ''-'' @ yyyymmdd e
                @ ascii ''_formatted.txt''"
    if y: "1000 \<le> year start" and r: "toordinal start + 6 \<le> max_ordinal"
  proof -
    from ex[OF r] obtain w where w: "window_of start flt = Inr w" ..
    from window_fields[OF assms w] obtain e where e: "add_days start 6 = Inr e"
      "valid_date e" "toordinal e = toordinal start + 6" "year start \<le> year e"
      and f: "after_date_text w = strftime_Ymd start"
      "before_date_text w = strftime_Ymd e"
      "query w = ascii ''subject:'' @ flt @ ascii '' after:'' @ strftime_Ymd start
                        @ ascii '' before:'' @ strftime_Ymd e"
      "output_filename w =
              ascii ''output_'' @ digits_Ymd start @ ascii ''-'' @ digits_Ymd e @ ascii ''.txt''"
      "output_filename_formatted w =
              ascii ''output_'' @ digits_Ymd start @ ascii ''-'' @ digits_Ymd e
                @ ascii ''_formatted.txt''"
      by blast
    from assms have ys: "year start \<le> 9999" by (simp add: valid_date_def)
    from e(2) have ye: "year e \<le> 9999" by (simp add: valid_date_def)
    from y e(4) have ye': "1000 \<le> year e" by simp
    note s = four_digits[OF y ys] and t = four_digits[OF ye' ye]
    from w e(1-3) f[unfolded s t] show ?thesis by blast
  qed
  have B: "\<exists>e. add_days start 6 = Inr e \<and> valid_date e \<and> toordinal e = toordinal start + 6 \<and>
            after_date_text w = strftime_Ymd start \<and>
            before_date_text w = strftime_Ymd e \<and>
            query w = ascii ''subject:'' @ flt @ ascii '' after:'' @ strftime_Ymd start
                        @ ascii '' before:'' @ strftime_Ymd e \<and>
            output_filename w =
              ascii ''output_'' @ digits_Ymd start @ ascii ''-'' @ digits_Ymd e @ ascii ''.txt'' \<and>
            output_filename_formatted w =
              ascii ''output_'' @ digits_Ymd start @ ascii ''-'' @ digits_Ymd e
                @ ascii ''_formatted.txt''"
    if "window_of start flt = Inr w" for w
    using window_fields[OF assms that] by blast
  have C: "strftime_Ymd start \<noteq> yyyy_mm_dd start \<and> digits_Ymd start \<noteq> yyyymmdd start"
    if "year start < 1000"
    using fewer_digits[OF that] by simp
  have D: "x = OverflowError \<and> max_ordinal < toordinal start + 6"
    if x: "window_of start flt = Inl x" for x
  proof
    from x have a: "add_days start 6 = Inl x"
      by (auto simp: window_of_def Let_def split: sum.splits)
    then show "x = OverflowError" by (rule add_days_error)
    show "max_ordinal < toordinal start + 6"
    proof (rule ccontr)
      assume "\<not> max_ordinal < toordinal start + 6"
      with add_days_total[OF assms, of 6] a show False by auto
    qed
  qed
  from A B C D ex show ?thesis by blast
qed

lemma add_days_numeral:
  "add_days d (numeral k) =
     (if year (next_day d) > 9999 then Inl OverflowError
      else add_days (next_day d) (pred_numeral k))"
  by (simp add: numeral_eq_Suc)

text \<open>
  The start date 2025-05-05: the window ends on 2025-05-11. The start date 0999-12-31:
  the window ends on 1000-01-06 and holds the start date as \<open>999/12/31\<close>. The
  start date 9999-12-28: the sixth following day is no date, and the addition raises
  OverflowError.
\<close>

theorem window_six_days_witness:
  "valid_date \<lparr>year = 2025, month = 5, day = 5\<rparr> \<and>
   toordinal \<lparr>year = 2025, month = 5, day = 5\<rparr> + 6 \<le> max_ordinal \<and>
   (\<exists>w. window_of \<lparr>year = 2025, month = 5, day = 5\<rparr> (ascii ''AWS'') = Inr w \<and>
        add_days \<lparr>year = 2025, month = 5, day = 5\<rparr> 6 = Inr \<lparr>year = 2025, month = 5, day = 11\<rparr> \<and>
        after_date_text w = ascii ''2025/05/05'' \<and>
        before_date_text w = ascii ''2025/05/11'' \<and>
        query w = ascii ''subject:AWS after:2025/05/05 before:2025/05/11'' \<and>
        output_filename w = ascii ''output_20250505-20250511.txt'' \<and>
        output_filename_formatted w = ascii ''output_20250505-20250511_formatted.txt'') \<and>
   valid_date \<lparr>year = 999, month = 12, day = 31\<rparr> \<and>
   toordinal \<lparr>year = 999, month = 12, day = 31\<rparr> + 6 \<le> max_ordinal \<and>
   (\<exists>w. window_of \<lparr>year = 999, month = 12, day = 31\<rparr> (ascii ''AWS'') = Inr w \<and>
        add_days \<lparr>year = 999, month = 12, day = 31\<rparr> 6 = Inr \<lparr>year = 1000, month = 1, day = 6\<rparr> \<and>
        after_date_text w = ascii ''999/12/31'' \<and>
        before_date_text w = ascii ''1000/01/06'' \<and>
        output_filename w = ascii ''output_9991231-10000106.txt'') \<and>
   strftime_Ymd \<lparr>year = 999, month = 12, day = 31\<rparr> \<noteq> yyyy_mm_dd \<lparr>year = 999, month = 12, day = 31\<rparr> \<and>
   valid_date \<lparr>year = 9999, month = 12, day = 28\<rparr> \<and>
   window_of \<lparr>year = 9999, month = 12, day = 28\<rparr> (ascii ''AWS'') = Inl OverflowError \<and>
   max_ordinal < toordinal \<lparr>year = 9999, month = 12, day = 28\<rparr> + 6"
proof -
  let ?a = "\<lparr>year = 999, month = 12, day = 31\<rparr>"
  let ?b = "\<lparr>year = 1000, month = 1, day = 6\<rparr>"
  have va: "valid_date ?a"
    by (simp add: valid_date_def days_in_month_def)
  have ya: "year ?a < 1000" by simp
  have oa: "toordinal ?a + 6 \<le> max_ordinal"
    by (simp add: max_ordinal_val toordinal_def days_before_year_def days_before_month_def)
  have aa: "add_days ?a 6 = Inr ?b"
    by (simp add: add_days_numeral next_day_def days_in_month_def)
  from window_six_days[OF va, of "ascii ''AWS''"] oa obtain wa
    where wa: "window_of ?a (ascii ''AWS'') = Inr wa" by blast
  with window_six_days[OF va, of "ascii ''AWS''"] aa
  have fa: "after_date_text wa = strftime_Ymd ?a"
    "before_date_text wa = strftime_Ymd ?b"
    "output_filename wa = ascii ''output_'' @ digits_Ymd ?a @ ascii ''-''
         @ digits_Ymd ?b @ ascii ''.txt''"
    by auto
  have ra: "strftime_Ymd ?a = ascii ''999/12/31''"
    "strftime_Ymd ?b = ascii ''1000/01/06''"
    "digits_Ymd ?a = ascii ''9991231''"
    "digits_Ymd ?b = ascii ''10000106''"
    by (simp_all add: strftime_Ymd_def digits_Ymd_def decimal.simps pad2_def digit_def ascii_def)
  from wa aa fa have xa: "\<exists>w. window_of ?a (ascii ''AWS'') = Inr w \<and>
        add_days ?a 6 = Inr ?b \<and>
        after_date_text w = ascii ''999/12/31'' \<and>
        before_date_text w = ascii ''1000/01/06'' \<and>
        output_filename w = ascii ''output_9991231-10000106.txt''"
    unfolding ra by (simp add: ascii_def)
  from window_six_days[OF va, of "ascii ''AWS''"] ya
  have na: "strftime_Ymd ?a \<noteq> yyyy_mm_dd ?a" by blast
  let ?l = "\<lparr>year = 9999, month = 12, day = 28\<rparr>"
  have vl: "valid_date ?l"
    by (simp add: valid_date_def days_in_month_def)
  have wl: "window_of ?l (ascii ''AWS'') = Inl OverflowError"
    by (simp add: window_of_def add_days_numeral next_day_def days_in_month_def)
  from window_six_days[OF vl, of "ascii ''AWS''"] wl
  have ol: "max_ordinal < toordinal ?l + 6" by blast
  let ?s = "\<lparr>year = 2025, month = 5, day = 5\<rparr>"
  let ?e = "\<lparr>year = 2025, month = 5, day = 11\<rparr>"
  have v: "valid_date ?s"
    by (simp add: valid_date_def days_in_month_def)
  have y: "1000 \<le> year ?s" by simp
  have o: "toordinal ?s + 6 \<le> max_ordinal"
    by (simp add: max_ordinal_val toordinal_def days_before_year_def days_before_month_def)
  have a: "add_days ?s 6 = Inr ?e"
    by (simp add: add_days_numeral next_day_def days_in_month_def)
  from window_six_days[OF v, of "ascii ''AWS''"] y o a obtain w
    where w: "window_of ?s (ascii ''AWS'') = Inr w"
    and f: "after_date_text w = yyyy_mm_dd ?s"
    "before_date_text w = yyyy_mm_dd ?e"
    "query w = ascii ''subject:'' @ ascii ''AWS'' @ ascii '' after:'' @ yyyy_mm_dd ?s
         @ ascii '' before:'' @ yyyy_mm_dd ?e"
    "output_filename w = ascii ''output_'' @ yyyymmdd ?s @ ascii ''-''
         @ yyyymmdd ?e @ ascii ''.txt''"
    "output_filename_formatted w = ascii ''output_'' @ yyyymmdd ?s @ ascii ''-''
         @ yyyymmdd ?e @ ascii ''_formatted.txt''"
    by auto
  have r: "yyyy_mm_dd ?s = ascii ''2025/05/05''"
    "yyyy_mm_dd ?e = ascii ''2025/05/11''"
    "yyyymmdd ?s = ascii ''20250505''"
    "yyyymmdd ?e = ascii ''20250511''"
    by (simp_all add: yyyy_mm_dd_def yyyymmdd_def pad4_def pad2_def digit_def ascii_def)
  from v o w a f have "\<exists>w. window_of ?s (ascii ''AWS'') = Inr w \<and>
        add_days ?s 6 = Inr ?e \<and>
        after_date_text w = ascii ''2025/05/05'' \<and>
        before_date_text w = ascii ''2025/05/11'' \<and>
        query w = ascii ''subject:AWS after:2025/05/05 before:2025/05/11'' \<and>
        output_filename w = ascii ''output_20250505-20250511.txt'' \<and>
        output_filename_formatted w = ascii ''output_20250505-20250511_formatted.txt''"
    unfolding r by (simp add: ascii_def)
  with v o va oa xa na vl wl ol show ?thesis by blast
qed

text \<open>
  Claim C8 as stated fails at both ends of the calendar. For the start date 0999-12-31
  the year is printed in three digits: the query holds \<open>999/12/31\<close>, not
  \<open>0999/12/31\<close>, and the file name is \<open>output_9991231-10000106.txt\<close>. For the
  start date 9999-12-31 there is no end date: the addition raises OverflowError.
\<close>

theorem window_edges_counterexample:
  "valid_date \<lparr>year = 999, month = 12, day = 31\<rparr> \<and>
   window_of \<lparr>year = 999, month = 12, day = 31\<rparr> (ascii ''AWS'') =
     Inr \<lparr>after_date_text = ascii ''999/12/31'',
          before_date_text = ascii ''1000/01/06'',
          query = ascii ''subject:AWS after:999/12/31 before:1000/01/06'',
          output_filename = ascii ''output_9991231-10000106.txt'',
          output_filename_formatted = ascii ''output_9991231-10000106_formatted.txt''\<rparr> \<and>
   yyyy_mm_dd \<lparr>year = 999, month = 12, day = 31\<rparr> = ascii ''0999/12/31'' \<and>
   yyyymmdd \<lparr>year = 999, month = 12, day = 31\<rparr> = ascii ''09991231'' \<and>
   ascii ''999/12/31'' \<noteq> ascii ''0999/12/31'' \<and>
   valid_date \<lparr>year = 9999, month = 12, day = 31\<rparr> \<and>
   window_of \<lparr>year = 9999, month = 12, day = 31\<rparr> (ascii ''AWS'') = Inl OverflowError"
proof -
  have a: "add_days \<lparr>year = 999, month = 12, day = 31\<rparr> 6 = Inr \<lparr>year = 1000, month = 1, day = 6\<rparr>"
    by (simp add: add_days_numeral next_day_def days_in_month_def)
  have s: "strftime_Ymd \<lparr>year = 999, month = 12, day = 31\<rparr> = ascii ''999/12/31''"
    "strftime_Ymd \<lparr>year = 1000, month = Suc 0, day = 6\<rparr> = ascii ''1000/01/06''"
    by (simp_all add: strftime_Ymd_def decimal.simps pad2_def digit_def ascii_def)
  have w: "window_of \<lparr>year = 999, month = 12, day = 31\<rparr> (ascii ''AWS'') =
     Inr \<lparr>after_date_text = ascii ''999/12/31'',
          before_date_text = ascii ''1000/01/06'',
          query = ascii ''subject:AWS after:999/12/31 before:1000/01/06'',
          output_filename = ascii ''output_9991231-10000106.txt'',
          output_filename_formatted = ascii ''output_9991231-10000106_formatted.txt''\<rparr>"
    by (simp add: window_of_def a s Let_def) (simp add: ascii_def)
  have v: "valid_date \<lparr>year = 999, month = 12, day = 31\<rparr>"
    "valid_date \<lparr>year = 9999, month = 12, day = 31\<rparr>"
    by (simp_all add: valid_date_def days_in_month_def)
  have r: "yyyy_mm_dd \<lparr>year = 999, month = 12, day = 31\<rparr> = ascii ''0999/12/31''"
    "yyyymmdd \<lparr>year = 999, month = 12, day = 31\<rparr> = ascii ''09991231''"
    "ascii ''999/12/31'' \<noteq> ascii ''0999/12/31''"
    by (simp_all add: yyyy_mm_dd_def yyyymmdd_def pad4_def pad2_def digit_def ascii_def)
  have l: "window_of \<lparr>year = 9999, month = 12, day = 31\<rparr> (ascii ''AWS'') = Inl OverflowError"
    by (simp add: window_of_def add_days_numeral next_day_def days_in_month_def)
  from v w r l show ?thesis by simp
qed

section \<open>Properties of the mail retriever\<close>

lemma dt_lt_cases:
  "dt_lt a b = (if is_aware a = is_aware b
                then Inr ((case a of Aware t \<Rightarrow> t | Naive t \<Rightarrow> t) < (case b of Aware t \<Rightarrow> t | Naive t \<Rightarrow> t))
                else Inl TypeError)"
  by (cases a; cases b) (simp_all add: is_aware_def)

lemma dt_lt_error: "dt_lt a b = Inl e \<Longrightarrow> e = TypeError \<and> is_aware a \<noteq> is_aware b"
  by (simp add: dt_lt_cases split: if_splits)

lemma not_earlier_trans: "not_earlier a b \<Longrightarrow> not_earlier b c \<Longrightarrow> not_earlier a c"
  by (auto simp: not_earlier_def dt_lt_cases split: if_splits)

lemma lt_not_earlier: "dt_lt (date x) (date y) = Inr True \<Longrightarrow> not_earlier y x"
  by (auto simp: not_earlier_def dt_lt_cases split: if_splits)

lemma lt_neq: "dt_lt (date x) (date y) = Inr True \<Longrightarrow> date y \<noteq> date x"
  by (auto simp: dt_lt_cases split: if_splits)

lemma insert_desc_Inr:
  "insert_desc x ys = Inr zs \<Longrightarrow> sorted_wrt not_earlier ys \<Longrightarrow>
     mset zs = mset (x # ys) \<and> sorted_wrt not_earlier zs \<and>
     (\<forall>k. filter (\<lambda>m. date m = k) zs = filter (\<lambda>m. date m = k) (x # ys))"
proof (induction ys arbitrary: zs)
  case Nil
  then show ?case by auto
next
  case (Cons y ys)
  show ?case
  proof (cases "dt_lt (date x) (date y)")
    case (Inl e)
    with Cons.prems show ?thesis by simp
  next
    case (Inr lt)
    show ?thesis
    proof (cases lt)
      case True
      with Inr Cons.prems obtain zs' where z: "insert_desc x ys = Inr zs'" and e: "zs = y # zs'"
        by (auto split: sum.splits)
      from Cons.prems(2) have s: "sorted_wrt not_earlier ys" and a: "\<forall>z \<in> set ys. not_earlier y z"
        by simp_all
      from Cons.IH[OF z s] have m: "mset zs' = mset (x # ys)" and s': "sorted_wrt not_earlier zs'"
        and f: "\<forall>k. filter (\<lambda>m. date m = k) zs' = filter (\<lambda>m. date m = k) (x # ys)"
        by simp_all
      from m have "set zs' = set (x # ys)" by (metis mset_eq_setD)
      with a lt_not_earlier[of x y] Inr True have "\<forall>z \<in> set zs'. not_earlier y z" by auto
      with s' e m f lt_neq[of x y] Inr True show ?thesis by auto
    next
      case False
      with Inr Cons.prems have e: "zs = x # y # ys" by simp
      from Inr False have xy: "not_earlier x y" by (simp add: not_earlier_def)
      with Cons.prems(2) have "\<forall>z \<in> set ys. not_earlier x z"
        by (auto intro: not_earlier_trans)
      with xy e Cons.prems(2) show ?thesis by simp
    qed
  qed
qed

lemma sort_desc_Inr:
  "sort_desc xs = Inr zs \<Longrightarrow>
     mset zs = mset xs \<and> sorted_wrt not_earlier zs \<and>
     (\<forall>k. filter (\<lambda>m. date m = k) zs = filter (\<lambda>m. date m = k) xs)"
proof (induction xs arbitrary: zs)
  case Nil
  then show ?case by simp
next
  case (Cons x xs)
  from Cons.prems obtain ys where y: "sort_desc xs = Inr ys" and i: "insert_desc x ys = Inr zs"
    by (auto split: sum.splits)
  from Cons.IH[OF y] have m: "mset ys = mset xs" and s: "sorted_wrt not_earlier ys"
    and f: "\<forall>k. filter (\<lambda>m. date m = k) ys = filter (\<lambda>m. date m = k) xs"
    by simp_all
  from insert_desc_Inr[OF i s] m f show ?case by simp
qed

lemma insert_desc_same_kind:
  "\<forall>y \<in> set ys. is_aware (date y) = is_aware (date x) \<Longrightarrow> \<exists>zs. insert_desc x ys = Inr zs"
proof (induction ys)
  case Nil
  then show ?case by simp
next
  case (Cons y ys)
  then obtain zs where "insert_desc x ys = Inr zs" by auto
  with Cons.prems show ?case by (simp add: dt_lt_cases split: bool.splits)
qed

lemma sort_desc_same_kind:
  "\<forall>x \<in> set xs. is_aware (date x) = k \<Longrightarrow> \<exists>zs. sort_desc xs = Inr zs"
proof (induction xs)
  case Nil
  then show ?case by simp
next
  case (Cons x xs)
  then obtain ys where y: "sort_desc xs = Inr ys" by auto
  from sort_desc_Inr[OF y] have "set ys = set xs" by (metis mset_eq_setD)
  with Cons.prems have "\<forall>y \<in> set ys. is_aware (date y) = is_aware (date x)" by simp
  from insert_desc_same_kind[OF this] y show ?case by simp
qed

lemma sort_desc_error: "sort_desc xs = Inl e \<Longrightarrow> e = TypeError"
proof (induction xs)
  case Nil
  then show ?case by simp
next
  case (Cons x xs)
  have i: "insert_desc x ys = Inl e \<Longrightarrow> e = TypeError" for ys
    by (induction ys) (auto split: sum.splits bool.splits dest: dt_lt_error)
  from Cons i show ?case by (auto split: sum.splits)
qed

lemma sort_desc_mixed:
  assumes "a \<in> set xs" "b \<in> set xs" "is_aware (date a)" "\<not> is_aware (date b)"
  shows "sort_desc xs = Inl TypeError"
proof (cases "sort_desc xs")
  case (Inl e)
  with sort_desc_error[OF Inl] show ?thesis by simp
next
  case (Inr zs)
  from sort_desc_Inr[OF Inr] have s: "sorted_wrt not_earlier zs" and "set zs = set xs"
    by (simp, metis mset_eq_setD)
  with assms have a: "a \<in> set zs" and b: "b \<in> set zs" by simp_all
  have ne: "a \<noteq> b" using assms by auto
  from a b obtain i j where i: "i < length zs" "zs ! i = a" and j: "j < length zs" "zs ! j = b"
    by (auto simp: in_set_conv_nth)
  with ne have "i < j \<or> j < i" by (cases "i = j") auto
  then have "not_earlier a b \<or> not_earlier b a"
    using s i j by (auto simp: sorted_wrt_iff_nth_less)
  with assms(3,4) have False by (auto simp: not_earlier_def dt_lt_cases)
  then show ?thesis ..
qed

lemma header_value_map_of:
  "header_value hs name dflt = (case map_of hs name of None \<Rightarrow> dflt | Some v \<Rightarrow> v)"
  by (induction hs name dflt rule: header_value.induct) simp_all

lemma first_plain_find:
  "first_plain decode ps =
     (case find (\<lambda>p. mimeType p = ascii ''text/plain'') ps of
        None \<Rightarrow> Inr []
      | Some p \<Rightarrow> (case part_data p of None \<Rightarrow> Inl KeyError | Some d \<Rightarrow> decode d))"
  by (induction ps) simp_all

lemma email_data_Inr:
  assumes "email_data strptime decode f = Inr e"
  shows "subject e = header_or (fpayload f) ''Subject'' (ascii ''No Subject'') \<and>
         sender e = header_or (fpayload f) ''From'' (ascii ''Unknown'') \<and>
         date e = normalize_date strptime (fnow f) (header_or (fpayload f) ''Date'' []) \<and>
         (case parts (fpayload f) of
            Some ps \<Rightarrow>
              (case find (\<lambda>p. mimeType p = ascii ''text/plain'') ps of
                 Some p \<Rightarrow> (\<exists>d. part_data p = Some d \<and> decode d = Inr (email_body e))
               | None \<Rightarrow> email_body e = [])
          | None \<Rightarrow>
              (case payload_body (fpayload f) of
                 Some (Some d) \<Rightarrow> decode d = Inr (email_body e)
               | _ \<Rightarrow> email_body e = []))"
proof -
  from assms obtain b where b: "body_of decode (fpayload f) = Inr b"
    and e: "e = \<lparr>msg_id = fid f,
                 subject = header_value (headers (fpayload f)) (ascii ''Subject'') (ascii ''No Subject''),
                 sender = header_value (headers (fpayload f)) (ascii ''From'') (ascii ''Unknown''),
                 date = normalize_date strptime (fnow f)
                          (header_value (headers (fpayload f)) (ascii ''Date'') []),
                 email_body = b\<rparr>"
    by (auto simp: email_data_def Let_def split: sum.splits)
  from e have h: "subject e = header_or (fpayload f) ''Subject'' (ascii ''No Subject'')"
    "sender e = header_or (fpayload f) ''From'' (ascii ''Unknown'')"
    "date e = normalize_date strptime (fnow f) (header_or (fpayload f) ''Date'' [])"
    "email_body e = b"
    by (simp_all add: header_value_map_of header_or_def)
  from b h(4) have "case parts (fpayload f) of
            Some ps \<Rightarrow>
              (case find (\<lambda>p. mimeType p = ascii ''text/plain'') ps of
                 Some p \<Rightarrow> (\<exists>d. part_data p = Some d \<and> decode d = Inr (email_body e))
               | None \<Rightarrow> email_body e = [])
          | None \<Rightarrow>
              (case payload_body (fpayload f) of
                 Some (Some d) \<Rightarrow> decode d = Inr (email_body e)
               | _ \<Rightarrow> email_body e = [])"
    by (auto simp: body_of_def first_plain_find split: option.splits)
  with h(1-3) show ?thesis by blast
qed

lemma email_data_built:
  "(\<exists>e. email_data strptime decode f = Inr e) \<longleftrightarrow>
     (case parts (fpayload f) of
        Some ps \<Rightarrow>
          (case find (\<lambda>p. mimeType p = ascii ''text/plain'') ps of
             Some p \<Rightarrow> (\<exists>d b. part_data p = Some d \<and> decode d = Inr b)
           | None \<Rightarrow> True)
      | None \<Rightarrow>
          (case payload_body (fpayload f) of
             Some (Some d) \<Rightarrow> (\<exists>b. decode d = Inr b)
           | _ \<Rightarrow> True))"
proof -
  have "(\<exists>e. email_data strptime decode f = Inr e) \<longleftrightarrow> (\<exists>b. body_of decode (fpayload f) = Inr b)"
    by (auto simp: email_data_def Let_def split: sum.splits)
  also have "\<dots> \<longleftrightarrow>
     (case parts (fpayload f) of
        Some ps \<Rightarrow>
          (case find (\<lambda>p. mimeType p = ascii ''text/plain'') ps of
             Some p \<Rightarrow> (\<exists>d b. part_data p = Some d \<and> decode d = Inr b)
           | None \<Rightarrow> True)
      | None \<Rightarrow>
          (case payload_body (fpayload f) of
             Some (Some d) \<Rightarrow> (\<exists>b. decode d = Inr b)
           | _ \<Rightarrow> True))"
    by (auto simp: body_of_def first_plain_find split: option.splits)
  finally show ?thesis .
qed

text \<open>
  Claim C7, as amended. The record of a message is built exactly when the data its body
  is taken from is there and decodes: for a payload with a list of parts, the first
  \<open>text/plain\<close> part, if there is one, has data and the decoder accepts it; for a
  payload without a list of parts, the decoder accepts the top-level body data, if
  there is any. What the decoder does on any other string plays no part. The subject,
  sender and date string of the record are the first \<open>Subject\<close>, \<open>From\<close> and
  \<open>Date\<close> headers, or \<open>No Subject\<close>, \<open>Unknown\<close> and the empty string. When the
  payload has a list of parts the body is the decoded data of the first \<open>text/plain\<close>
  part, and empty when no part is \<open>text/plain\<close>, whatever the top-level body holds;
  only a payload without a list of parts gives the decoded top-level body data, or the
  empty string without it.
\<close>

theorem body_and_headers:
  "((\<exists>e. email_data strptime decode f = Inr e) \<longleftrightarrow>
      (case parts (fpayload f) of
         Some ps \<Rightarrow>
           (case find (\<lambda>p. mimeType p = ascii ''text/plain'') ps of
              Some p \<Rightarrow> (\<exists>d b. part_data p = Some d \<and> decode d = Inr b)
            | None \<Rightarrow> True)
       | None \<Rightarrow>
           (case payload_body (fpayload f) of
              Some (Some d) \<Rightarrow> (\<exists>b. decode d = Inr b)
            | _ \<Rightarrow> True))) \<and>
   (email_data strptime decode f = Inr e \<longrightarrow>
      subject e = header_or (fpayload f) ''Subject'' (ascii ''No Subject'') \<and>
      sender e = header_or (fpayload f) ''From'' (ascii ''Unknown'') \<and>
      date e = normalize_date strptime (fnow f) (header_or (fpayload f) ''Date'' []) \<and>
      (case parts (fpayload f) of
         Some ps \<Rightarrow>
           (case find (\<lambda>p. mimeType p = ascii ''text/plain'') ps of
              Some p \<Rightarrow> (\<exists>d. part_data p = Some d \<and> decode d = Inr (email_body e))
            | None \<Rightarrow> email_body e = [])
       | None \<Rightarrow>
           (case payload_body (fpayload f) of
              Some (Some d) \<Rightarrow> decode d = Inr (email_body e)
            | _ \<Rightarrow> email_body e = [])))"
  using email_data_Inr[of strptime decode f e] email_data_built[of strptime decode f]
  by blast

lemma normalize_fallback:
  assumes "\<forall>fmt \<in> set date_formats. strptime (strip (re_sub paren_rx [] d)) fmt = Inl ValueError"
  shows "normalize_date strptime now d = Naive now"
proof -
  have "\<forall>fmt \<in> set fmts. strptime (strip (re_sub paren_rx [] d)) fmt = Inl ValueError \<Longrightarrow>
        try_formats strptime d fmts = Inr None" for fmts
    by (induction fmts) (simp_all add: Let_def)
  from this[OF assms] show ?thesis by (simp add: normalize_date_def)
qed

text \<open>
  Claim C5, where it fails. A date string that no format parses is normalized to the
  naive clock reading; but as soon as the built list holds a mail with a parsed (aware)
  date and a mail with a fallback (naive) date, the sort raises TypeError and the
  retrieval ends with it.
\<close>

theorem fallback_date_aborts_sort:
  "((\<forall>fmt \<in> set date_formats. strptime (strip (re_sub paren_rx [] d)) fmt = Inl ValueError)
      \<longrightarrow> normalize_date strptime now d = Naive now) \<and>
   (email_list strptime decode messages = Inr xs \<and> a \<in> set xs \<and> b \<in> set xs \<and>
      date a = Aware t \<and> date b = Naive n
      \<longrightarrow> get_emails_by_subject strptime decode messages = Inl TypeError)"
proof (intro conjI impI)
  assume "\<forall>fmt \<in> set date_formats. strptime (strip (re_sub paren_rx [] d)) fmt = Inl ValueError"
  then show "normalize_date strptime now d = Naive now" by (rule normalize_fallback)
next
  assume h: "email_list strptime decode messages = Inr xs \<and> a \<in> set xs \<and> b \<in> set xs \<and>
      date a = Aware t \<and> date b = Naive n"
  then have "messages \<noteq> []" by auto
  moreover from h have "sort_desc xs = Inl TypeError"
    by (intro sort_desc_mixed[of a xs b]) (simp_all add: is_aware_def)
  ultimately show "get_emails_by_subject strptime decode messages = Inl TypeError"
    using h by (simp add: get_emails_by_subject_def)
qed

text \<open>
  Claim C6. Whenever the retrieval returns, its result is a rearrangement of the built
  mails in which no mail is dated before a later one of the list (newest first), and
  for every date the mails of that date stand in the provider's order. It returns
  whenever the mails are built and their dates are all aware or all naive.
\<close>

theorem sorted_newest_first:
  "(get_emails_by_subject strptime decode messages = Inr out \<longrightarrow>
      (\<exists>xs. email_list strptime decode messages = Inr xs \<and> mset out = mset xs \<and>
            sorted_wrt not_earlier out \<and>
            (\<forall>k. filter (\<lambda>m. date m = k) out = filter (\<lambda>m. date m = k) xs))) \<and>
   (email_list strptime decode messages = Inr xs \<and> (\<forall>x \<in> set xs. is_aware (date x) = k)
      \<longrightarrow> (\<exists>out. get_emails_by_subject strptime decode messages = Inr out))"
proof (intro conjI impI)
  assume g: "get_emails_by_subject strptime decode messages = Inr out"
  show "\<exists>xs. email_list strptime decode messages = Inr xs \<and> mset out = mset xs \<and>
            sorted_wrt not_earlier out \<and>
            (\<forall>k. filter (\<lambda>m. date m = k) out = filter (\<lambda>m. date m = k) xs)"
  proof (cases "messages = []")
    case True
    with g show ?thesis by (simp add: get_emails_by_subject_def)
  next
    case False
    with g obtain xs where x: "email_list strptime decode messages = Inr xs"
      and s: "sort_desc xs = Inr out"
      by (auto simp: get_emails_by_subject_def split: sum.splits)
    from sort_desc_Inr[OF s] x show ?thesis by blast
  qed
next
  assume h: "email_list strptime decode messages = Inr xs \<and> (\<forall>x \<in> set xs. is_aware (date x) = k)"
  then obtain zs where "sort_desc xs = Inr zs" using sort_desc_same_kind[of xs k] by blast
  with h show "\<exists>out. get_emails_by_subject strptime decode messages = Inr out"
    by (simp add: get_emails_by_subject_def)
qed

lemma get_emails_sorted:
  "get_emails_by_subject strptime decode messages = Inr out \<Longrightarrow> sorted_wrt not_earlier out"
  by (auto simp: get_emails_by_subject_def split: if_splits sum.splits dest: sort_desc_Inr)

subsection \<open>The sample mails\<close>

lemmas ev_mail = email_data_def Let_def header_value.simps normalize_date_def date_formats_def
  paren_rx_def body_of_def strptime_sample_def decode_sample_def ascii_def
  re_sub_def re_search.simps re_sub_from.simps strip_def isspace_def

lemma sample_dated:
  "email_data strptime_sample decode_sample msg_dated =
     Inr \<lparr>msg_id = ascii ''m1'', subject = ascii ''Alert - AWS'', sender = ascii ''alerts@example.com'',
          date = Aware 1746406800, email_body = body_old\<rparr>"
  by (simp add: msg_dated_def ev_mail)

lemma sample_later:
  "email_data strptime_sample decode_sample msg_later =
     Inr \<lparr>msg_id = ascii ''m2'', subject = ascii ''Alert - AWS'', sender = ascii ''Unknown'',
          date = Aware 1746523800, email_body = body_new\<rparr>"
  by (simp add: msg_later_def ev_mail)

lemma sample_undated:
  "email_data strptime_sample decode_sample msg_undated =
     Inr \<lparr>msg_id = ascii ''m3'', subject = ascii ''No Subject'', sender = ascii ''alerts@example.com'',
          date = Naive 1746600002, email_body = ascii ''first''\<rparr>"
  by (simp add: msg_undated_def ev_mail)

lemma sample_list_mixed:
  "email_list strptime_sample decode_sample [msg_dated, msg_undated] = Inr [mail_dated, mail_undated]"
  by (simp add: sample_dated sample_undated mail_dated_def mail_undated_def)

lemma sample_list_dated:
  "email_list strptime_sample decode_sample [msg_dated, msg_later] = Inr [mail_dated, mail_later]"
  by (simp add: sample_dated sample_later mail_dated_def mail_later_def)

lemma sample_sorted:
  "get_emails_by_subject strptime_sample decode_sample [msg_dated, msg_later] =
     Inr [mail_later, mail_dated]"
  unfolding get_emails_by_subject_def sample_list_dated
  by (simp add: mail_dated_def mail_later_def)

text \<open>
  The sample mail without Subject and Date, with two plain parts after an HTML part,
  under the strict decoder: the data of the HTML part is rejected, and the record is
  built all the same, with the first plain part as its body.
\<close>

theorem body_and_headers_witness:
  "decode_strict (ascii ''<p>x</p>'') = Inl DecodeError \<and>
   parts (fpayload msg_undated) =
        Some [\<lparr>mimeType = ascii ''text/html'', part_data = Some (ascii ''<p>x</p>'')\<rparr>,
              \<lparr>mimeType = ascii ''text/plain'', part_data = Some (ascii ''first'')\<rparr>,
              \<lparr>mimeType = ascii ''text/plain'', part_data = Some (ascii ''second'')\<rparr>] \<and>
   decode_strict (ascii ''first'') = Inr (ascii ''first'') \<and>
   (\<exists>e. email_data strptime_sample decode_strict msg_undated = Inr e) \<and>
   email_data strptime_sample decode_strict msg_undated = Inr mail_undated \<and>
   header_or (fpayload msg_undated) ''Subject'' (ascii ''No Subject'') = ascii ''No Subject'' \<and>
   header_or (fpayload msg_undated) ''From'' (ascii ''Unknown'') = ascii ''alerts@example.com'' \<and>
   header_or (fpayload msg_undated) ''Date'' [] = [] \<and>
   subject mail_undated = ascii ''No Subject'' \<and>
   sender mail_undated = ascii ''alerts@example.com'' \<and>
   date mail_undated = normalize_date strptime_sample (fnow msg_undated) [] \<and>
   email_body mail_undated = ascii ''first''"
proof -
  have f: "parts (fpayload msg_undated) =
        Some [\<lparr>mimeType = ascii ''text/html'', part_data = Some (ascii ''<p>x</p>'')\<rparr>,
              \<lparr>mimeType = ascii ''text/plain'', part_data = Some (ascii ''first'')\<rparr>,
              \<lparr>mimeType = ascii ''text/plain'', part_data = Some (ascii ''second'')\<rparr>]"
    by (simp add: msg_undated_def)
  have n: "ascii ''text/html'' \<noteq> ascii ''text/plain''" by (simp add: ascii_def)
  have d: "decode_strict (ascii ''<p>x</p>'') = Inl DecodeError"
    "decode_strict (ascii ''first'') = Inr (ascii ''first'')"
    by (simp_all add: decode_strict_def ascii_def)
  have h: "header_or (fpayload msg_undated) ''Subject'' (ascii ''No Subject'') = ascii ''No Subject''"
    "header_or (fpayload msg_undated) ''From'' (ascii ''Unknown'') = ascii ''alerts@example.com''"
    "header_or (fpayload msg_undated) ''Date'' [] = []"
    by (simp_all add: header_or_def msg_undated_def ascii_def)
  note t = body_and_headers[where strptime = strptime_sample and decode = decode_strict
      and f = msg_undated and e = mail_undated]
  have "case parts (fpayload msg_undated) of
         Some ps \<Rightarrow>
           (case find (\<lambda>p. mimeType p = ascii ''text/plain'') ps of
              Some p \<Rightarrow> (\<exists>d b. part_data p = Some d \<and> decode_strict d = Inr b)
            | None \<Rightarrow> True)
       | None \<Rightarrow>
           (case payload_body (fpayload msg_undated) of
              Some (Some d) \<Rightarrow> (\<exists>b. decode_strict d = Inr b)
            | _ \<Rightarrow> True)"
    unfolding f using n d(2) by simp
  with t have x: "\<exists>e. email_data strptime_sample decode_strict msg_undated = Inr e"
    by (rule conjunct1[THEN iffD2])
  have e: "email_data strptime_sample decode_strict msg_undated = Inr mail_undated"
    by (simp add: msg_undated_def mail_undated_def ev_mail decode_strict_def)
  from t e have "subject mail_undated = header_or (fpayload msg_undated) ''Subject'' (ascii ''No Subject'')"
    and "sender mail_undated = header_or (fpayload msg_undated) ''From'' (ascii ''Unknown'')"
    and "date mail_undated = normalize_date strptime_sample (fnow msg_undated)
           (header_or (fpayload msg_undated) ''Date'' [])"
    and "case parts (fpayload msg_undated) of
         Some ps \<Rightarrow>
           (case find (\<lambda>p. mimeType p = ascii ''text/plain'') ps of
              Some p \<Rightarrow> (\<exists>d. part_data p = Some d \<and> decode_strict d = Inr (email_body mail_undated))
            | None \<Rightarrow> email_body mail_undated = [])
       | None \<Rightarrow>
           (case payload_body (fpayload msg_undated) of
              Some (Some d) \<Rightarrow> decode_strict d = Inr (email_body mail_undated)
            | _ \<Rightarrow> email_body mail_undated = [])"
    by blast+
  with d x e h n show ?thesis unfolding f by simp
qed

text \<open>
  Claim C7 as stated fails on a payload with parts, none of them \<open>text/plain\<close>, and
  with top-level body data: the body is empty, not the top-level body.
\<close>

theorem multipart_without_plain_counterexample:
  "parts (fpayload msg_html_only) =
     Some [\<lparr>mimeType = ascii ''text/html'', part_data = Some (ascii ''<p>x</p>'')\<rparr>] \<and>
   ascii ''text/html'' \<noteq> ascii ''text/plain'' \<and>
   payload_body (fpayload msg_html_only) = Some (Some (ascii ''top'')) \<and>
   decode_sample (ascii ''top'') = Inr (ascii ''top'') \<and>
   body_of decode_sample (fpayload msg_html_only) = Inr [] \<and>
   body_of decode_sample (fpayload msg_html_only) \<noteq> Inr (ascii ''top'')"
  by (simp add: msg_html_only_def body_of_def decode_sample_def ascii_def)

text \<open>A dated mail followed by a mail without Date header.\<close>

theorem fallback_date_aborts_sort_witness:
  "map (strptime_sample (strip (re_sub paren_rx [] []))) date_formats =
     [Inl ValueError, Inl ValueError, Inl ValueError] \<and>
   normalize_date strptime_sample (fnow msg_undated) [] = Naive (fnow msg_undated) \<and>
   email_list strptime_sample decode_sample [msg_dated, msg_undated] = Inr [mail_dated, mail_undated] \<and>
   date mail_dated = Aware 1746406800 \<and> date mail_undated = Naive 1746600002 \<and>
   get_emails_by_subject strptime_sample decode_sample [msg_dated, msg_undated] = Inl TypeError"
proof -
  have v: "\<forall>fmt \<in> set date_formats. strptime_sample (strip (re_sub paren_rx [] [])) fmt = Inl ValueError"
    by (simp add: date_formats_def strptime_sample_def ascii_def re_sub_def re_sub_from.simps
          re_search.simps paren_rx_def strip_def)
  have d: "date mail_dated = Aware 1746406800" "date mail_undated = Naive 1746600002"
    by (simp_all add: mail_dated_def mail_undated_def)
  note t = fallback_date_aborts_sort[of strptime_sample "[]" "fnow msg_undated" decode_sample
      "[msg_dated, msg_undated]" "[mail_dated, mail_undated]" mail_dated mail_undated
      1746406800 1746600002]
  from t v have "normalize_date strptime_sample (fnow msg_undated) [] = Naive (fnow msg_undated)"
    by blast
  moreover from t sample_list_mixed d
  have "get_emails_by_subject strptime_sample decode_sample [msg_dated, msg_undated] = Inl TypeError"
    by (simp del: email_list.simps)
  moreover have "map (strptime_sample (strip (re_sub paren_rx [] []))) date_formats =
     [Inl ValueError, Inl ValueError, Inl ValueError]"
    using v by (simp add: date_formats_def)
  ultimately show ?thesis using sample_list_mixed d by blast
qed

text \<open>Two dated mails, the older first in the provider's order.\<close>

theorem sorted_newest_first_witness:
  "get_emails_by_subject strptime_sample decode_sample [msg_dated, msg_later] = Inr [mail_later, mail_dated] \<and>
   email_list strptime_sample decode_sample [msg_dated, msg_later] = Inr [mail_dated, mail_later] \<and>
   is_aware (date mail_dated) \<and> is_aware (date mail_later) \<and>
   mset [mail_later, mail_dated] = mset [mail_dated, mail_later] \<and>
   sorted_wrt not_earlier [mail_later, mail_dated] \<and>
   not_earlier mail_later mail_dated"
proof -
  have a: "\<forall>x \<in> set [mail_dated, mail_later]. is_aware (date x) = True"
    by (simp add: mail_dated_def mail_later_def is_aware_def)
  note t = sorted_newest_first[of strptime_sample decode_sample "[msg_dated, msg_later]"
     "[mail_later, mail_dated]" "[mail_dated, mail_later]" True]
  from t sample_sorted sample_list_dated a
  have "mset [mail_later, mail_dated] = mset [mail_dated, mail_later]"
    and s: "sorted_wrt not_earlier [mail_later, mail_dated]"
    by (auto simp del: email_list.simps)
  with sample_sorted sample_list_dated a show ?thesis by simp
qed

section \<open>Properties of the extraction pass and the deduplication gate\<close>

lemma re_split_from_nonempty: "re_split_from r cap adv s \<noteq> []"
  by (subst re_split_from.simps) (simp split: option.splits prod.splits)

lemma re_split_nonempty: "re_split r cap s \<noteq> []"
  by (simp add: re_split_def re_split_from_nonempty)

lemma block_fields_total:
  "block_fields a = Inr (body (article_of a), strip (last (re_split crlf_rx False a)))"
  using re_split_nonempty[of crlf_rx False a]
  by (simp add: block_fields_def py_last_def article_of_def split: list.splits)

lemma add_block_eq: "add_block st a = Inr (gate st (body (article_of a)) (url (article_of a)))"
  by (simp add: add_block_def block_fields_total) (simp add: article_of_def)

lemma add_blocks_eq: "add_blocks st arts = Inr (gate_all st (map article_of arts))"
  by (induction arts arbitrary: st) (simp_all add: add_block_eq gate_all_def)

lemma gate_all_append: "gate_all st (xs @ ys) = gate_all (gate_all st xs) ys"
  by (simp add: gate_all_def)

lemma blocks_of_error: "blocks_of b = Inl e \<Longrightarrow> e = IndexError"
  by (auto simp: blocks_of_def py_index_def split: if_splits sum.splits)

lemma add_emails_Inr:
  "add_emails st bodies = Inr st' \<Longrightarrow>
     st' = gate_all st (discovered bodies) \<and> (\<forall>b \<in> set bodies. \<exists>arts. blocks_of b = Inr arts)"
proof (induction bodies arbitrary: st)
  case Nil
  then show ?case by (simp add: discovered_def gate_all_def)
next
  case (Cons b bodies)
  from Cons.prems obtain arts where a: "blocks_of b = Inr arts"
    and r: "add_emails (gate_all st (map article_of arts)) bodies = Inr st'"
    by (auto simp: add_blocks_eq split: sum.splits)
  from Cons.IH[OF r] a show ?case
    by (simp add: discovered_def gate_all_append)
qed

lemma add_emails_Inl:
  "b \<in> set bodies \<Longrightarrow> blocks_of b = Inl e \<Longrightarrow> add_emails st bodies = Inl IndexError"
proof (induction bodies arbitrary: st)
  case Nil
  then show ?case by simp
next
  case (Cons c bodies)
  show ?case
  proof (cases "blocks_of c")
    case (Inl e')
    with blocks_of_error[OF Inl] show ?thesis by simp
  next
    case (Inr arts)
    with Cons.prems have "b \<in> set bodies" by auto
    from Cons.IH[OF this Cons.prems(2)] Inr show ?thesis
      by (simp add: add_blocks_eq)
  qed
qed

lemma blocks_of_short:
  "length (re_split delim_rx True b) < 5 \<Longrightarrow> blocks_of b = Inl IndexError"
  by (simp add: blocks_of_def py_index_def)

text \<open>
  Claim C9. A body whose delimiter-inclusive split has fewer than five segments makes
  the extraction raise IndexError; the fault is not caught, so a run over any list of
  bodies that contains such a body ends in IndexError instead of skipping it.
\<close>

theorem short_split_raises:
  assumes "length (re_split delim_rx True b) < 5"
  shows "blocks_of b = Inl IndexError \<and>
         (\<forall>bodies. b \<in> set bodies \<longrightarrow> collect_articles bodies = Inl IndexError)"
  using blocks_of_short[OF assms] add_emails_Inl[of b _ IndexError]
  by (simp add: collect_articles_def)

lemma kept_first_from: "kept_first xs = kept_from {} xs"
  by (simp add: kept_first_def kept_from_def)

lemma kept_from_Nil: "kept_from S [] = []"
  by (simp add: kept_from_def)

lemma kept_from_Cons:
  "kept_from S (x # xs) = (if url x \<in> S then [] else [x]) @ kept_from (insert (url x) S) xs"
proof -
  have u: "[0..<length (x # xs)] = 0 # map Suc [0..<length xs]"
    by (simp add: upt_conv_Cons map_Suc_upt del: upt_Suc)
  show ?thesis
    unfolding kept_from_def u
    by (simp add: filter_map comp_def conj_ac)
qed

lemma subseq_kept_from: "subseq (kept_from S xs) xs"
  by (induction xs arbitrary: S) (auto simp: kept_from_Nil kept_from_Cons)

lemma gate_all_kept_from:
  "fst st = map url (snd st) \<Longrightarrow>
     gate_all st xs =
       (fst st @ map url (kept_from (set (fst st)) xs), snd st @ kept_from (set (fst st)) xs)"
proof (induction xs arbitrary: st)
  case Nil
  then show ?case by (cases st) (simp add: gate_all_def kept_from_Nil)
next
  case (Cons x xs)
  let ?st = "gate st (body x) (url x)"
  have g: "gate_all st (x # xs) = gate_all ?st xs" by (simp add: gate_all_def)
  have i: "fst ?st = map url (snd ?st)" using Cons.prems by (simp add: gate_def)
  show ?case
    unfolding g Cons.IH[OF i] kept_from_Cons
    by (auto simp: gate_def insert_absorb)
qed

lemma gate_all_first: "gate_all ([], []) xs = (map url (kept_first xs), kept_first xs)"
  using gate_all_kept_from[of "([], [])" xs] by (simp add: kept_first_from)

lemma collect_articles_Inr:
  "collect_articles bodies = Inr st \<Longrightarrow> st = gate_all ([], []) (discovered bodies)"
  unfolding collect_articles_def by (drule add_emails_Inr) simp

text \<open>
  Claim C4. When the pass over the bodies returns, its articles are the first
  occurrences, by canonical URL, of the articles in discovery order (message by
  message in the order handed over, block by block), in that order, and the recorded
  URLs are theirs. In a whole run the bodies are those of the retrieved mails in the
  retriever's order, newest first. For articles A, B, C with the URL of C equal to that
  of A and different from that of B, the gate keeps exactly A, B.
\<close>

theorem first_occurrence_kept:
  "(collect_articles bodies = Inr st \<longrightarrow>
      snd st = kept_first (discovered bodies) \<and> fst st = map url (snd st) \<and>
      subseq (snd st) (discovered bodies)) \<and>
   (digest_articles strptime decode messages = Inr arts \<longrightarrow>
      (\<exists>emails. get_emails_by_subject strptime decode messages = Inr emails \<and>
         sorted_wrt not_earlier emails \<and>
         arts = kept_first (discovered (map email_body emails)))) \<and>
   (u1 \<noteq> u2 \<longrightarrow>
      snd (gate_all ([], []) [\<lparr>body = a, url = u1\<rparr>, \<lparr>body = b, url = u2\<rparr>, \<lparr>body = c, url = u1\<rparr>])
        = [\<lparr>body = a, url = u1\<rparr>, \<lparr>body = b, url = u2\<rparr>])"
proof (intro conjI impI)
  assume c: "collect_articles bodies = Inr st"
  from collect_articles_Inr[OF c] show "snd st = kept_first (discovered bodies)"
    and "fst st = map url (snd st)"
    by (simp_all add: gate_all_first)
  then show "subseq (snd st) (discovered bodies)"
    by (simp add: kept_first_from subseq_kept_from)
next
  assume d: "digest_articles strptime decode messages = Inr arts"
  then obtain emails st' where g: "get_emails_by_subject strptime decode messages = Inr emails"
    and c: "collect_articles (map email_body emails) = Inr st'" and a: "arts = snd st'"
    by (auto simp: digest_articles_def split: sum.splits)
  from collect_articles_Inr[OF c] a
  have "arts = kept_first (discovered (map email_body emails))"
    by (simp add: gate_all_first)
  with g get_emails_sorted[OF g]
  show "\<exists>emails. get_emails_by_subject strptime decode messages = Inr emails \<and>
         sorted_wrt not_earlier emails \<and>
         arts = kept_first (discovered (map email_body emails))"
    by blast
next
  assume "u1 \<noteq> u2"
  then show "snd (gate_all ([], []) [\<lparr>body = a, url = u1\<rparr>, \<lparr>body = b, url = u2\<rparr>, \<lparr>body = c, url = u1\<rparr>])
        = [\<lparr>body = a, url = u1\<rparr>, \<lparr>body = b, url = u2\<rparr>]"
    by (simp add: gate_all_def gate_def)
qed

lemma gate_keeps:
  "distinct (map url (snd st)) \<and> map url (snd st) = fst st \<Longrightarrow>
   distinct (map url (snd (gate st b u))) \<and> map url (snd (gate st b u)) = fst (gate st b u)"
  by (cases st) (auto simp: gate_def)

lemma reach_inv: "reach st \<Longrightarrow> distinct (map url (snd st)) \<and> map url (snd st) = fst st"
proof (induction rule: reach.induct)
  case reach_init
  then show ?case by simp
next
  case (reach_step st a st')
  from reach_step.hyps(2) have "st' = gate st (body (article_of a)) (url (article_of a))"
    by (simp add: add_block_eq)
  with gate_keeps[OF reach_step.IH] show ?case by blast
qed

lemma add_blocks_reach: "reach st \<Longrightarrow> add_blocks st arts = Inr st' \<Longrightarrow> reach st'"
proof (induction arts arbitrary: st)
  case Nil
  then show ?case by simp
next
  case (Cons a arts)
  from Cons.prems(2) obtain st1 where s: "add_block st a = Inr st1"
    and r: "add_blocks st1 arts = Inr st'"
    by (auto split: sum.splits)
  from Cons.IH[OF reach_step[OF Cons.prems(1) s] r] show ?case .
qed

lemma add_emails_reach: "reach st \<Longrightarrow> add_emails st bodies = Inr st' \<Longrightarrow> reach st'"
proof (induction bodies arbitrary: st)
  case Nil
  then show ?case by simp
next
  case (Cons b bodies)
  from Cons.prems(2) obtain arts st1 where "blocks_of b = Inr arts"
    and s: "add_blocks st arts = Inr st1" and r: "add_emails st1 bodies = Inr st'"
    by (auto split: sum.splits)
  from Cons.IH[OF add_blocks_reach[OF Cons.prems(1) s] r] show ?case .
qed

text \<open>
  Claim C10. In every state of the extraction pass the URLs of the accumulated articles
  are pairwise distinct and are, as a sequence, the accumulator of seen URLs. The final
  state is such a state, and \<open>news_text\<close> renders its articles one entry each, so the
  raw digest has no entry with the URL of another.
\<close>

theorem dedup_invariant:
  "(reach st \<longrightarrow> distinct (map url (snd st)) \<and> map url (snd st) = fst st) \<and>
   (collect_articles bodies = Inr st' \<longrightarrow> reach st' \<and> distinct (map url (snd st'))) \<and>
   news_text arts = concat (map (\<lambda>a. body a @ [LF] @ url a @ [LF, LF]) arts)"
proof (intro conjI impI)
  show "news_text arts = concat (map (\<lambda>a. body a @ [LF] @ url a @ [LF, LF]) arts)"
    by (induction arts) simp_all
next
  assume "reach st"
  from reach_inv[OF this] show "distinct (map url (snd st))" "map url (snd st) = fst st"
    by blast+
next
  assume "collect_articles bodies = Inr st'"
  then show r: "reach st'"
    unfolding collect_articles_def by (rule add_emails_reach[OF reach_init])
  from reach_inv[OF this] show "distinct (map url (snd st'))" by blast
qed

subsection \<open>The sample digests\<close>

text \<open>The unfolding rules with which the simplifier runs the model on concrete data.\<close>

lemmas ev = re_split_def re_sub_def re_search.simps re_split_from.simps re_sub_from.simps
  delim_rx_def crlf_rx_def angle_rx_def http_rx_def ctga_rx_def CR_def LF_def crlf_def
  blocks_of_def py_index_def py_last_def slice_1_m1_def slice_m1_def ascii_def
  strip_def isspace_def canonicalize_def article_of_def

lemma sample_collect:
  "collect_articles [body_new, body_old] = Inr ([url art_A, url art_B], [art_A, art_B])"
  by (simp add: collect_articles_def body_new_def body_old_def ev add_block_def block_fields_def
        gate_def art_A_def art_B_def)

lemma sample_discovered: "discovered [body_new, body_old] = [art_A, art_B, art_C]"
  by (simp add: discovered_def body_new_def body_old_def ev art_A_def art_B_def art_C_def)

text \<open>The two sample digests: A and B are kept, C is dropped.\<close>

theorem first_occurrence_kept_witness:
  "collect_articles [body_new, body_old] = Inr ([url art_A, url art_B], [art_A, art_B]) \<and>
   discovered [body_new, body_old] = [art_A, art_B, art_C] \<and>
   kept_first [art_A, art_B, art_C] = [art_A, art_B] \<and>
   subseq [art_A, art_B] [art_A, art_B, art_C] \<and>
   digest_articles strptime_sample decode_sample [msg_dated, msg_later] = Inr [art_A, art_B] \<and>
   get_emails_by_subject strptime_sample decode_sample [msg_dated, msg_later] = Inr [mail_later, mail_dated] \<and>
   map email_body [mail_later, mail_dated] = [body_new, body_old] \<and>
   url art_A \<noteq> url art_B \<and> url art_C = url art_A \<and>
   snd (gate_all ([], []) [art_A, art_B, art_C]) = [art_A, art_B]"
proof -
  have n: "url art_A \<noteq> url art_B" "url art_C = url art_A"
    by (simp_all add: art_A_def art_B_def art_C_def ascii_def)
  have b: "map email_body [mail_later, mail_dated] = [body_new, body_old]"
    by (simp add: mail_later_def mail_dated_def)
  have d: "digest_articles strptime_sample decode_sample [msg_dated, msg_later] = Inr [art_A, art_B]"
    using sample_sorted sample_collect b by (simp add: digest_articles_def)
  note t = first_occurrence_kept[of "[body_new, body_old]" "([url art_A, url art_B], [art_A, art_B])"
      strptime_sample decode_sample "[msg_dated, msg_later]" "[art_A, art_B]"
      "url art_A" "url art_B" "body art_A" "body art_B" "body art_C"]
  from t sample_collect have k: "[art_A, art_B] = kept_first (discovered [body_new, body_old])"
    and s: "subseq [art_A, art_B] (discovered [body_new, body_old])"
    by auto
  from t d obtain emails where
    "get_emails_by_subject strptime_sample decode_sample [msg_dated, msg_later] = Inr emails"
    "sorted_wrt not_earlier emails"
    by blast
  have r: "\<lparr>body = body art_A, url = url art_A\<rparr> = art_A"
    "\<lparr>body = body art_B, url = url art_B\<rparr> = art_B"
    "\<lparr>body = body art_C, url = url art_A\<rparr> = art_C"
    by (simp_all add: art_A_def art_B_def art_C_def)
  from t n(1) have g: "snd (gate_all ([], []) [art_A, art_B, art_C]) = [art_A, art_B]"
    unfolding r by blast
  from sample_collect sample_discovered k[unfolded sample_discovered, symmetric]
    s[unfolded sample_discovered] n g d sample_sorted b
  show ?thesis by blast
qed

text \<open>The final state of the pass over the two sample digests.\<close>

theorem dedup_invariant_witness:
  "collect_articles [body_new, body_old] = Inr ([url art_A, url art_B], [art_A, art_B]) \<and>
   reach ([url art_A, url art_B], [art_A, art_B]) \<and>
   distinct (map url [art_A, art_B]) \<and> map url [art_A, art_B] = [url art_A, url art_B]"
  using dedup_invariant[of "([url art_A, url art_B], [art_A, art_B])" "[body_new, body_old]"
      "([url art_A, url art_B], [art_A, art_B])"] sample_collect
  by simp

lemma sample_plain_split:
  "re_split delim_rx True body_plain =
     [[], ascii ''==='', ascii '' Sale! Only today'' @ crlf @ ascii ''http://shop.example/'']"
  by (simp add: body_plain_def ev)

text \<open>The mail that is not a digest has three segments.\<close>

theorem short_split_raises_witness:
  "length (re_split delim_rx True body_plain) < 5 \<and>
   blocks_of body_plain = Inl IndexError \<and>
   collect_articles [body_new, body_plain, body_old] = Inl IndexError"
  using short_split_raises[of body_plain] sample_plain_split
  by simp

section \<open>Properties of the substitutions and of the URL canonicalization\<close>

subsection \<open>Scanning with a pattern that cannot match the empty string\<close>

lemma re_match_length: "x \<in> set (re_match r s) \<Longrightarrow> length x \<le> length s"
  using re_match_suffix[of x r s] by (simp add: suffix_length_le)

lemma re_match_shorter: "nonnull r \<Longrightarrow> x \<in> set (re_match r s) \<Longrightarrow> length x < length s"
proof (induction r arbitrary: s x)
  case Eps
  then show ?case by simp
next
  case (Atom a)
  then show ?case by (cases s) (auto split: if_splits)
next
  case (Star a)
  then show ?case by simp
next
  case (Seq p q)
  from Seq.prems(2) obtain y where y: "y \<in> set (re_match p s)" and x: "x \<in> set (re_match q y)"
    by auto
  from Seq.prems(1) have "nonnull p \<or> nonnull q" by simp
  then show ?case
  proof
    assume "nonnull p"
    from Seq.IH(1)[OF this y] re_match_length[OF x] show ?thesis by simp
  next
    assume "nonnull q"
    from Seq.IH(2)[OF this x] re_match_length[OF y] show ?thesis by simp
  qed
next
  case (Alt p q)
  then show ?case by auto
qed

lemma re_match_lit: "re_match (lit p) s = (if prefix p s then [drop (length p) s] else [])"
proof (induction p arbitrary: s)
  case Nil
  then show ?case by simp
next
  case (Cons c p)
  then show ?case by (cases s) auto
qed

lemma re_search_hit:
  "re_match r s = x # xs \<Longrightarrow> re_search r False s = Some ([], take (length s - length x) s, x)"
  by (subst re_search.simps) simp

lemma re_search_skip:
  "re_match r (c # cs) = [] \<Longrightarrow>
     re_search r False (c # cs) =
       (case re_search r False cs of None \<Rightarrow> None
        | Some (pre, mt, rest) \<Rightarrow> Some (c # pre, mt, rest))"
  by (subst re_search.simps) simp

lemma re_match_Nil: "nonnull r \<Longrightarrow> re_match r [] = []"
  using re_match_shorter[of r "hd (re_match r [])" "[]"] by (cases "re_match r []") auto

lemma re_search_Nil: "nonnull r \<Longrightarrow> re_search r adv [] = None"
  by (subst re_search.simps) (simp add: re_match_Nil)

lemma re_search_adv: "nonnull r \<Longrightarrow> re_search r adv s = re_search r False s"
proof -
  assume n: "nonnull r"
  have "filter (\<lambda>x. length x < length s) (re_match r s) = re_match r s"
    using re_match_shorter[OF n] by (simp add: filter_id_conv)
  then show ?thesis
    by (subst (1 2) re_search.simps) simp
qed

text \<open>
  None of the patterns of the program matches the empty string, so the rule for empty
  matches never applies to them.
\<close>

lemma program_patterns_nonnull:
  "nonnull delim_rx" "nonnull crlf_rx" "nonnull angle_rx" "nonnull http_rx" "nonnull ctga_rx"
  "nonnull paren_rx"
  by (simp_all add: delim_rx_def crlf_rx_def angle_rx_def http_rx_def ctga_rx_def paren_rx_def
      ascii_def)

lemma re_sub_Nil: "nonnull r \<Longrightarrow> re_sub r repl [] = []"
  unfolding re_sub_def by (subst re_sub_from.simps) (simp add: re_search_Nil)

lemma re_sub_skip: "re_match r (c # cs) = [] \<Longrightarrow> re_sub r repl (c # cs) = c # re_sub r repl cs"
  unfolding re_sub_def
  by (subst (1 2) re_sub_from.simps) (simp add: re_search_skip split: option.splits)

lemma re_sub_hit:
  assumes "nonnull r" "re_match r s = x # xs"
  shows "re_sub r repl s = repl @ re_sub r repl x"
proof -
  from assms have "length x < length s" using re_match_shorter[of r x s] by simp
  then have "take (length s - length x) s \<noteq> []" by (cases s) auto
  then show ?thesis
    unfolding re_sub_def
    by (subst re_sub_from.simps) (simp add: re_search_hit[OF assms(2)])
qed

lemma re_split_Nil: "nonnull r \<Longrightarrow> re_split r cap [] = [[]]"
  unfolding re_split_def by (subst re_split_from.simps) (simp add: re_search_Nil)

lemma re_split_skip:
  "re_match r (c # cs) = [] \<Longrightarrow>
     re_split r cap (c # cs) = (c # hd (re_split r cap cs)) # tl (re_split r cap cs)"
  unfolding re_split_def
  by (subst (1 2 3) re_split_from.simps) (simp add: re_search_skip split: option.splits)

lemma re_split_hit:
  assumes "nonnull r" "re_match r s = x # xs"
  shows "re_split r cap s =
           [] # (if cap then [take (length s - length x) s] else []) @ re_split r cap x"
proof -
  from assms have "length x < length s" using re_match_shorter[of r x s] by simp
  then have "take (length s - length x) s \<noteq> []" by (cases s) auto
  then show ?thesis
    unfolding re_split_def
    by (subst re_split_from.simps) (simp add: re_search_hit[OF assms(2)])
qed

text \<open>Induction along the scan of a non-null pattern.\<close>

lemma scan_induct [consumes 1, case_names Nil skip hit]:
  assumes "nonnull r"
    and "P []"
    and "\<And>c cs. re_match r (c # cs) = [] \<Longrightarrow> P cs \<Longrightarrow> P (c # cs)"
    and "\<And>s x xs. re_match r s = x # xs \<Longrightarrow> length x < length s \<Longrightarrow> P x \<Longrightarrow> P s"
  shows "P s"
proof (induction s rule: length_induct)
  case (1 s)
  show ?case
  proof (cases "re_match r s")
    case Nil
    show ?thesis
    proof (cases s)
      case Nil
      with assms(2) show ?thesis by simp
    next
      case (Cons c cs)
      with Nil 1 assms(3)[of c cs] show ?thesis by simp
    qed
  next
    case (Cons x xs)
    then have "length x < length s" using re_match_shorter[OF assms(1), of x s] by simp
    with Cons 1 assms(4)[of s x xs] show ?thesis by simp
  qed
qed

lemma re_sub_chars:
  assumes n: "nonnull r"
  shows "set (re_sub r repl s) \<subseteq> set s \<union> set repl"
  using n
proof (induction s rule: scan_induct)
  case Nil
  then show ?case by (simp add: re_sub_Nil n)
next
  case (skip c cs)
  then show ?case by (auto simp: re_sub_skip)
next
  case (hit s x xs)
  from hit(1) have "suffix x s" using re_match_suffix[of x r s] by simp
  then have "set x \<subseteq> set s" by (auto simp: suffix_def)
  with hit show ?case by (auto simp: re_sub_hit[OF n hit(1)])
qed

lemma nomatch_Cons: "nomatch r (c # cs) \<longleftrightarrow> re_match r (c # cs) = [] \<and> nomatch r cs"
  by (auto simp: nomatch_def suffix_Cons)

lemma re_sub_nomatch: "nonnull r \<Longrightarrow> nomatch r s \<Longrightarrow> re_sub r repl s = s"
  by (induction s) (simp_all add: re_sub_Nil re_sub_skip nomatch_Cons)

lemma re_match_before:
  "rejects r c \<Longrightarrow> re_match r (v @ c # z) = map (\<lambda>x. x @ c # z) (re_match r v)"
proof (induction r arbitrary: v)
  case Eps
  then show ?case by simp
next
  case (Atom a)
  then show ?case by (cases v) auto
next
  case (Star a)
  then show ?case by (induction v) auto
next
  case (Seq p q)
  then show ?case by (simp add: map_concat comp_def)
next
  case (Alt p q)
  then show ?case by simp
qed

lemma re_sub_before:
  assumes n: "nonnull r" and j: "rejects r c"
  shows "re_sub r repl (v @ c # z) = re_sub r repl v @ c # re_sub r repl z"
  using n
proof (induction v rule: scan_induct)
  case Nil
  have "re_match r (c # z) = []"
    using re_match_before[OF j, of "[]" z] by (simp add: re_match_Nil[OF n])
  then show ?case by (simp add: re_sub_skip re_sub_Nil[OF n])
next
  case (skip d ds)
  have "re_match r (d # ds @ c # z) = []"
    using re_match_before[OF j, of "d # ds" z] skip(1) by simp
  with skip show ?case by (simp add: re_sub_skip)
next
  case (hit s x xs)
  have "re_match r (s @ c # z) = (x @ c # z) # map (\<lambda>x. x @ c # z) xs"
    using re_match_before[OF j, of s z] hit(1) by simp
  from re_sub_hit[OF n this] re_sub_hit[OF n hit(1)] hit(3) show ?case by simp
qed

subsection \<open>The three patterns on one line\<close>

lemma before_first_None: "before_first p s = None \<longleftrightarrow> \<not> sublist p s"
  by (induction s) (auto simp: sublist_Cons_right split: option.splits)

lemma before_first_Some:
  "p \<noteq> [] \<Longrightarrow> before_first p s = Some a \<Longrightarrow>
     (\<exists>b. s = a @ p @ b) \<and> \<not> sublist p (a @ butlast p)"
proof (induction s arbitrary: a)
  case Nil
  then show ?case by (auto split: if_splits)
next
  case (Cons c cs)
  show ?case
  proof (cases "prefix p (c # cs)")
    case True
    with Cons.prems have a: "a = []" by simp
    have "\<not> sublist p (butlast p)"
      using Cons.prems(1) sublist_length_le[of p "butlast p"] by (cases p rule: rev_cases) auto
    with True a show ?thesis by (auto simp: prefix_def)
  next
    case False
    with Cons.prems obtain a' where a': "before_first p cs = Some a'" and a: "a = c # a'"
      by (auto split: option.splits)
    from Cons.IH[OF Cons.prems(1) a'] obtain b where b: "cs = a' @ p @ b"
      and n: "\<not> sublist p (a' @ butlast p)"
      by blast
    have "\<not> prefix p (c # a' @ butlast p)"
    proof
      assume "prefix p (c # a' @ butlast p)"
      moreover have "prefix (c # a' @ butlast p) (c # cs)"
        unfolding b by (cases p rule: rev_cases) (simp_all add: prefix_def)
      ultimately have "prefix p (c # cs)" by (rule prefix_order.trans)
      with False show False ..
    qed
    with n a b show ?thesis by (simp add: sublist_Cons_right)
  qed
qed

lemma after_last_None: "p \<noteq> [] \<Longrightarrow> after_last p s = None \<longleftrightarrow> \<not> sublist p s"
  by (induction s) (auto simp: sublist_Cons_right split: option.splits)

lemma after_last_Some:
  "p \<noteq> [] \<Longrightarrow> after_last p s = Some z \<Longrightarrow> (\<exists>w. s = w @ p @ z) \<and> \<not> sublist p z"
proof (induction s)
  case Nil
  then show ?case by simp
next
  case (Cons c cs)
  show ?case
  proof (cases "after_last p cs")
    case (Some z')
    with Cons obtain w where "cs = w @ p @ z" and "\<not> sublist p z" by auto
    then have "c # cs = (c # w) @ p @ z" by simp
    with \<open>\<not> sublist p z\<close> show ?thesis by blast
  next
    case None
    with Cons.prems have pr: "prefix p (c # cs)" and z: "z = drop (length p) (c # cs)"
      by (auto split: if_splits)
    from None Cons.prems(1) have n: "\<not> sublist p cs" by (simp add: after_last_None)
    from Cons.prems(1) z have "suffix z cs"
      by (cases p) (simp_all add: suffix_drop)
    with n have "\<not> sublist p z"
      by (meson sublist_order.order.trans suffix_imp_sublist)
    moreover from pr z have "c # cs = [] @ p @ z" by (auto simp: prefix_def)
    ultimately show ?thesis by blast
  qed
qed

lemma http_chars: "ascii ''http'' = [104, 116, 116, 112]"
  by (simp add: ascii_def)

lemma ctga_chars: "ascii ''&ct=ga&'' = [38, 99, 116, 61, 103, 97, 38]"
  by (simp add: ascii_def)

lemma angle_chars: "ascii ''<>'' = [60, 62]"
  by (simp add: ascii_def)

lemma len_http [simp]: "length (ascii ''http'') = 4"
  by (simp add: ascii_def)

lemma len_ctga [simp]: "length (ascii ''&ct=ga&'') = 7"
  by (simp add: ascii_def)

lemma nonnull_patterns: "nonnull angle_rx" "nonnull http_rx" "nonnull ctga_rx"
  by (simp_all add: angle_rx_def http_rx_def ctga_rx_def http_chars ctga_chars)

lemma rejects_LF: "rejects angle_rx 10" "rejects http_rx 10" "rejects ctga_rx 10"
  by (simp_all add: angle_rx_def http_rx_def ctga_rx_def http_chars ctga_chars angle_chars)

lemma star_Dot_line: "10 \<notin> set s \<Longrightarrow> \<exists>xs. re_match (Star Dot) s = [] # xs"
  by (induction s) auto

lemma re_match_ctga:
  "re_match ctga_rx s =
     (if prefix (ascii ''&ct=ga&'') s then re_match (Star Dot) (drop 7 s) else [])"
  by (simp add: ctga_rx_def re_match_lit del: re_match.simps(3))

lemma re_sub_angle: "re_sub angle_rx [] s = filter (\<lambda>c. c \<notin> set (ascii ''<>'')) s"
proof (induction s)
  case Nil
  then show ?case by (simp add: re_sub_Nil nonnull_patterns)
next
  case (Cons c cs)
  show ?case
  proof (cases "c \<in> set (ascii ''<>'')")
    case True
    then have "re_match angle_rx (c # cs) = [cs]" by (simp add: angle_rx_def)
    from re_sub_hit[OF nonnull_patterns(1) this] Cons True show ?thesis by simp
  next
    case False
    then have "re_match angle_rx (c # cs) = []" by (simp add: angle_rx_def)
    from re_sub_skip[OF this] Cons False show ?thesis by simp
  qed
qed

lemma re_sub_ctga_line: "10 \<notin> set s \<Longrightarrow> re_sub ctga_rx [] s = spec_truncate s"
proof (induction s)
  case Nil
  then show ?case by (simp add: re_sub_Nil nonnull_patterns spec_truncate_def ctga_chars)
next
  case (Cons c cs)
  show ?case
  proof (cases "prefix (ascii ''&ct=ga&'') (c # cs)")
    case True
    from Cons.prems have "10 \<notin> set (drop 7 (c # cs))" by (meson in_set_dropD)
    from star_Dot_line[OF this] True obtain xs where "re_match ctga_rx (c # cs) = [] # xs"
      by (auto simp: re_match_ctga)
    from re_sub_hit[OF nonnull_patterns(3) this] True show ?thesis
      by (simp add: re_sub_Nil nonnull_patterns spec_truncate_def)
  next
    case False
    then have "re_match ctga_rx (c # cs) = []" by (simp add: re_match_ctga)
    from re_sub_skip[OF this] Cons False show ?thesis
      by (simp add: spec_truncate_def split: option.splits)
  qed
qed

lemma re_match_http:
  "re_match http_rx s = (if prefix (ascii ''http'') s then re_match tail_rx (drop 4 s) else [])"
  by (simp add: http_rx_def tail_rx_def re_match_lit del: re_match.simps(3))

lemma re_match_tail_Cons:
  "c \<noteq> 10 \<Longrightarrow> re_match tail_rx (c # cs) =
     re_match tail_rx cs @ (if prefix (ascii ''http'') (c # cs) then [drop 4 (c # cs)] else [])"
  by (simp add: tail_rx_def re_match_lit)

lemma re_match_tail_Nil: "re_match tail_rx [] = []"
  by (simp add: tail_rx_def re_match_lit) (simp add: http_chars)

lemma re_match_tail_last:
  "10 \<notin> set a \<Longrightarrow>
     (case after_last (ascii ''http'') a of
        None \<Rightarrow> re_match tail_rx a = []
      | Some z \<Rightarrow> (\<exists>xs. re_match tail_rx a = z # xs))"
proof (induction a)
  case Nil
  then show ?case by (simp add: re_match_tail_Nil http_chars)
next
  case (Cons c cs)
  then have c: "c \<noteq> 10" and IH: "case after_last (ascii ''http'') cs of
        None \<Rightarrow> re_match tail_rx cs = []
      | Some z \<Rightarrow> (\<exists>xs. re_match tail_rx cs = z # xs)"
    by auto
  show ?case
  proof (cases "after_last (ascii ''http'') cs")
    case None
    with IH show ?thesis by (simp add: re_match_tail_Cons[OF c])
  next
    case (Some z)
    with IH show ?thesis by (auto simp: re_match_tail_Cons[OF c])
  qed
qed

lemma nomatch_http_no_sublist: "\<not> sublist (ascii ''http'') s \<Longrightarrow> nomatch http_rx s"
proof -
  assume n: "\<not> sublist (ascii ''http'') s"
  have "\<not> prefix (ascii ''http'') v" if "suffix v s" for v
  proof
    assume "prefix (ascii ''http'') v"
    then have "sublist (ascii ''http'') v" by (rule prefix_imp_sublist)
    with that have "sublist (ascii ''http'') s"
      by (meson sublist_order.order.trans suffix_imp_sublist)
    with n show False ..
  qed
  then show ?thesis by (simp add: nomatch_def re_match_http)
qed

lemma no_http_after_h:
  assumes "prefix (ascii ''http'') (c # cs)" "\<not> sublist (ascii ''http'') (drop 4 (c # cs))"
  shows "\<not> sublist (ascii ''http'') cs"
proof -
  from assms(1) obtain rest where cs: "cs = 116 # 116 # 112 # rest"
    by (auto simp: http_chars prefix_def)
  with assms(2) have "\<not> sublist (ascii ''http'') rest" by simp
  then show ?thesis
    unfolding cs by (simp add: sublist_Cons_right http_chars)
qed

lemma spec_collapse_skip:
  assumes "\<not> prefix (ascii ''http'') (c # cs)"
  shows "spec_collapse (c # cs) = c # spec_collapse cs"
proof (cases "before_first (ascii ''http'') cs")
  case None
  with assms show ?thesis by (simp add: spec_collapse_def)
next
  case (Some a)
  have "length (c # a) + 4 = Suc (length a + 4)" by simp
  then have d: "drop (length (c # a) + 4) (c # cs) = drop (length a + 4) cs"
    by (simp only: drop_Suc_Cons)
  from assms Some have b: "before_first (ascii ''http'') (c # cs) = Some (c # a)" by simp
  show ?thesis
    unfolding spec_collapse_def b Some option.case d
    by (simp split: option.splits)
qed

lemma re_sub_http_line:
  "10 \<notin> set s \<Longrightarrow> re_sub http_rx (ascii ''http'') s = spec_collapse s"
proof (induction s)
  case Nil
  then show ?case
    by (simp add: re_sub_Nil nonnull_patterns spec_collapse_def http_chars)
next
  case (Cons c cs)
  then have IH: "re_sub http_rx (ascii ''http'') cs = spec_collapse cs" by simp
  show ?case
  proof (cases "prefix (ascii ''http'') (c # cs)")
    case False
    then have "re_match http_rx (c # cs) = []" by (simp add: re_match_http)
    from re_sub_skip[OF this] IH spec_collapse_skip[OF False] show ?thesis
      by simp
  next
    case True
    from Cons.prems have lf: "10 \<notin> set (drop 4 (c # cs))" by (meson in_set_dropD)
    show ?thesis
    proof (cases "after_last (ascii ''http'') (drop 4 (c # cs))")
      case None
      with re_match_tail_last[OF lf] True have "re_match http_rx (c # cs) = []"
        by (simp add: re_match_http)
      from re_sub_skip[OF this] IH
      have 1: "re_sub http_rx (ascii ''http'') (c # cs) = c # spec_collapse cs" by simp
      from None have "\<not> sublist (ascii ''http'') (drop 4 (c # cs))"
        by (simp add: after_last_None http_chars)
      from no_http_after_h[OF True this] have "before_first (ascii ''http'') cs = None"
        by (simp add: before_first_None)
      then have 2: "spec_collapse cs = cs" by (simp add: spec_collapse_def)
      from True None have "spec_collapse (c # cs) = c # cs"
        by (simp add: spec_collapse_def)
      with 1 2 show ?thesis by simp
    next
      case (Some z)
      with re_match_tail_last[OF lf] True obtain xs where "re_match http_rx (c # cs) = z # xs"
        by (auto simp: re_match_http)
      from re_sub_hit[OF nonnull_patterns(2) this]
      have 1: "re_sub http_rx (ascii ''http'') (c # cs) = ascii ''http'' @ re_sub http_rx (ascii ''http'') z" .
      from after_last_Some[OF _ Some] have "\<not> sublist (ascii ''http'') z"
        by (simp add: http_chars)
      from re_sub_nomatch[OF nonnull_patterns(2) nomatch_http_no_sublist[OF this]]
      have 2: "re_sub http_rx (ascii ''http'') z = z" .
      from True Some have "spec_collapse (c # cs) = ascii ''http'' @ z"
        by (simp add: spec_collapse_def)
      with 1 2 show ?thesis by simp
    qed
  qed
qed

lemma canonicalize_line:
  assumes "10 \<notin> set x"
  shows "canonicalize x = spec_canonicalize x"
proof -
  let ?b = "filter (\<lambda>c. c \<notin> set (ascii ''<>'')) x"
  from assms have b: "10 \<notin> set ?b" by simp
  have "set (spec_collapse ?b) \<subseteq> set ?b \<union> set (ascii ''http'')"
    using re_sub_chars[OF nonnull_patterns(2), of "ascii ''http''" ?b] re_sub_http_line[OF b]
    by simp
  with b have c: "10 \<notin> set (spec_collapse ?b)" by (auto simp: http_chars)
  show ?thesis
    unfolding canonicalize_def spec_canonicalize_def re_sub_angle re_sub_http_line[OF b]
      re_sub_ctga_line[OF c] ..
qed

lemma canonicalize_lines:
  "canonicalize (l @ 10 # z) = canonicalize l @ 10 # canonicalize z"
  unfolding canonicalize_def
  by (simp add: re_sub_before[OF nonnull_patterns(1) rejects_LF(1)]
      re_sub_before[OF nonnull_patterns(2) rejects_LF(2)]
      re_sub_before[OF nonnull_patterns(3) rejects_LF(3)])

subsection \<open>Idempotence\<close>

lemma ctga_ne: "ascii ''&ct=ga&'' \<noteq> []"
  by (simp add: ctga_chars)

lemma http_ne: "ascii ''http'' \<noteq> []"
  by (simp add: http_chars)

lemma twice_prefix: "prefix p s \<Longrightarrow> twice p \<Longrightarrow> twice s"
proof -
  assume "prefix p s" "twice p"
  then obtain q a w b where "s = p @ q" "p = a @ ascii ''http'' @ w @ ascii ''http'' @ b"
    by (auto simp: twice_def prefix_def)
  then have "s = a @ ascii ''http'' @ w @ ascii ''http'' @ (b @ q)" by simp
  then show "twice s" unfolding twice_def by blast
qed

lemma twice_sublist: "twice s \<Longrightarrow> sublist (ascii ''http'') s"
  by (auto simp: twice_def sublist_def)

lemma nomatch_http_once:
  assumes "10 \<notin> set s" "\<not> twice s"
  shows "nomatch http_rx s"
  unfolding nomatch_def
proof (intro allI impI)
  fix v
  assume v: "suffix v s"
  show "re_match http_rx v = []"
  proof (rule ccontr)
    assume m: "re_match http_rx v \<noteq> []"
    then have p: "prefix (ascii ''http'') v" and t: "re_match tail_rx (drop 4 v) \<noteq> []"
      by (auto simp: re_match_http split: if_splits)
    from v have "set v \<subseteq> set s" by (rule set_mono_suffix)
    with assms(1) have "10 \<notin> set v" by auto
    then have "10 \<notin> set (drop 4 v)" by (meson in_set_dropD)
    from re_match_tail_last[OF this] t obtain z where "after_last (ascii ''http'') (drop 4 v) = Some z"
      by (cases "after_last (ascii ''http'') (drop 4 v)") auto
    from after_last_Some[OF _ this] obtain w where w: "drop 4 v = w @ ascii ''http'' @ z"
      by (auto simp: http_chars)
    from p have "v = ascii ''http'' @ drop 4 v" by (auto simp: prefix_def)
    with w have "v = ascii ''http'' @ w @ ascii ''http'' @ z" by simp
    moreover from v obtain a where "s = a @ v" by (auto simp: suffix_def)
    ultimately have "twice s" by (auto simp: twice_def)
    with assms(2) show False ..
  qed
qed

lemma once:
  assumes p: "\<not> sublist (ascii ''http'') (pre @ butlast (ascii ''http''))"
    and z: "\<not> sublist (ascii ''http'') z"
  shows "\<not> twice (pre @ ascii ''http'' @ z)"
proof
  let ?H = "ascii ''http''"
  assume "twice (pre @ ?H @ z)"
  then obtain a w b where e: "pre @ ?H @ z = a @ ?H @ w @ ?H @ b"
    by (auto simp: twice_def)
  then have "\<exists>us. (pre = a @ us \<and> us @ (?H @ z) = ?H @ w @ ?H @ b) \<or>
                (pre @ us = a \<and> ?H @ z = us @ (?H @ w @ ?H @ b))"
    by (rule append_eq_append_conv2[THEN iffD1])
  then consider us where "pre = a @ us" "us @ ?H @ z = ?H @ w @ ?H @ b"
    | us where "pre @ us = a" "?H @ z = us @ ?H @ w @ ?H @ b"
    by blast
  then show False
  proof cases
    case 1
    show False
    proof (cases us)
      case Nil
      with 1 have "z = w @ ?H @ b" by simp
      with z show False by (auto simp: sublist_def)
    next
      case (Cons u us')
      have "us @ ?H @ z = (us @ butlast ?H) @ [last ?H] @ z"
        by (simp add: http_chars)
      with 1(2) have "prefix ?H ((us @ butlast ?H) @ [last ?H] @ z)"
        by (simp add: prefix_def)
      then have "prefix ?H (us @ butlast ?H) \<or> (\<exists>vs. ?H = (us @ butlast ?H) @ vs)"
        unfolding prefix_append[of ?H "us @ butlast ?H"] by blast
      then consider "prefix ?H (us @ butlast ?H)"
        | vs where "?H = (us @ butlast ?H) @ vs"
        by blast
      then show False
      proof cases
        case 1
        then have "sublist ?H (us @ butlast ?H)" by (rule prefix_imp_sublist)
        then have "sublist ?H (a @ us @ butlast ?H)"
          unfolding sublist_def by (metis append.assoc)
        with p \<open>pre = a @ us\<close> show False by simp
      next
        case 2
        then have "length ?H = length ((us @ butlast ?H) @ vs)" by simp
        with Cons have "us' = []" "vs = []" by (simp_all add: http_chars)
        with 2 Cons show False by (simp add: http_chars)
      qed
    qed
  next
    case 2
    define q where "q = drop 4 (us @ ?H @ w)"
    from 2(2) have "drop 4 (?H @ z) = drop 4 ((us @ ?H @ w) @ ?H @ b)" by simp
    then have "z = q @ ?H @ b" by (simp add: q_def)
    with z show False unfolding sublist_def by blast
  qed
qed

lemma not_twice_collapse: "\<not> twice (spec_collapse y)"
proof (cases "before_first (ascii ''http'') y")
  case None
  then have "\<not> sublist (ascii ''http'') y" by (simp add: before_first_None)
  with twice_sublist[of y] None show ?thesis by (auto simp: spec_collapse_def)
next
  case (Some pre)
  from before_first_Some[OF http_ne Some] obtain b
    where y: "y = pre @ ascii ''http'' @ b"
      and p: "\<not> sublist (ascii ''http'') (pre @ butlast (ascii ''http''))"
    by blast
  have d: "drop (length pre + 4) y = b" unfolding y by simp
  show ?thesis
  proof (cases "after_last (ascii ''http'') b")
    case None
    then have "\<not> sublist (ascii ''http'') b" by (simp add: after_last_None http_ne)
    from once[OF p this] Some None show ?thesis by (simp add: spec_collapse_def d y[symmetric])
  next
    case (Some z)
    from after_last_Some[OF http_ne Some] have "\<not> sublist (ascii ''http'') z" by blast
    from once[OF p this] \<open>before_first (ascii ''http'') y = Some pre\<close> Some show ?thesis
      by (simp add: spec_collapse_def d)
  qed
qed

lemma nomatch_ctga_no_sublist: "\<not> sublist (ascii ''&ct=ga&'') s \<Longrightarrow> nomatch ctga_rx s"
proof -
  assume n: "\<not> sublist (ascii ''&ct=ga&'') s"
  have "\<not> prefix (ascii ''&ct=ga&'') v" if "suffix v s" for v
  proof
    assume "prefix (ascii ''&ct=ga&'') v"
    then have "sublist (ascii ''&ct=ga&'') v" by (rule prefix_imp_sublist)
    with that have "sublist (ascii ''&ct=ga&'') s"
      by (meson sublist_order.order.trans suffix_imp_sublist)
    with n show False ..
  qed
  then show ?thesis by (simp add: nomatch_def re_match_ctga)
qed

lemma spec_truncate_prefix: "prefix (spec_truncate y) y"
proof (cases "before_first (ascii ''&ct=ga&'') y")
  case None
  then show ?thesis by (simp add: spec_truncate_def)
next
  case (Some pre)
  from before_first_Some[OF ctga_ne Some] obtain b where "y = pre @ ascii ''&ct=ga&'' @ b"
    by blast
  then have "prefix pre y" by simp
  with Some show ?thesis by (simp add: spec_truncate_def)
qed

lemma spec_truncate_clean: "\<not> sublist (ascii ''&ct=ga&'') (spec_truncate y)"
proof (cases "before_first (ascii ''&ct=ga&'') y")
  case None
  then have "\<not> sublist (ascii ''&ct=ga&'') y" by (simp add: before_first_None)
  with None show ?thesis by (simp add: spec_truncate_def)
next
  case (Some pre)
  from before_first_Some[OF ctga_ne Some]
  have n: "\<not> sublist (ascii ''&ct=ga&'') (pre @ butlast (ascii ''&ct=ga&''))"
    by blast
  have "\<not> sublist (ascii ''&ct=ga&'') pre"
  proof
    assume "sublist (ascii ''&ct=ga&'') pre"
    then have "sublist (ascii ''&ct=ga&'') (pre @ butlast (ascii ''&ct=ga&''))"
      unfolding sublist_def by (metis append.assoc)
    with n show False ..
  qed
  with Some show ?thesis by (simp add: spec_truncate_def)
qed

lemma canonicalize_chars: "set (canonicalize x) \<subseteq> (set x - {60, 62}) \<union> set (ascii ''http'')"
proof -
  have "set (canonicalize x) \<subseteq> set (re_sub http_rx (ascii ''http'') (re_sub angle_rx [] x))"
    unfolding canonicalize_def using re_sub_chars[OF nonnull_patterns(3), of "[]"] by simp
  also have "\<dots> \<subseteq> set (re_sub angle_rx [] x) \<union> set (ascii ''http'')"
    by (rule re_sub_chars[OF nonnull_patterns(2)])
  also have "\<dots> \<subseteq> (set x - {60, 62}) \<union> set (ascii ''http'')"
    by (auto simp: re_sub_angle angle_chars)
  finally show ?thesis .
qed

lemma canonicalize_line_fixed:
  assumes "10 \<notin> set x"
  shows "canonicalize (canonicalize x) = canonicalize x"
proof -
  let ?y = "canonicalize x"
  let ?b = "filter (\<lambda>c. c \<notin> set (ascii ''<>'')) x"
  have y: "?y = spec_truncate (spec_collapse ?b)"
    using canonicalize_line[OF assms] by (simp add: spec_canonicalize_def)
  from canonicalize_chars[of x] assms have lf: "10 \<notin> set ?y" and ang: "60 \<notin> set ?y" "62 \<notin> set ?y"
    by (auto simp: http_chars)
  from ang have 1: "re_sub angle_rx [] ?y = ?y"
    by (simp add: re_sub_angle angle_chars filter_id_conv) metis
  have "\<not> twice ?y"
    using twice_prefix[OF spec_truncate_prefix[of "spec_collapse ?b"]] not_twice_collapse[of ?b]
    unfolding y by blast
  from re_sub_nomatch[OF nonnull_patterns(2) nomatch_http_once[OF lf this]]
  have 2: "re_sub http_rx (ascii ''http'') ?y = ?y" .
  have "\<not> sublist (ascii ''&ct=ga&'') ?y" unfolding y by (rule spec_truncate_clean)
  from re_sub_nomatch[OF nonnull_patterns(3) nomatch_ctga_no_sublist[OF this]]
  have 3: "re_sub ctga_rx [] ?y = ?y" .
  show ?thesis
    by (subst (1) canonicalize_def) (simp only: 1 2 3)
qed

text \<open>
  Claim C3. The canonicalization is idempotent on every string.
\<close>

theorem canonicalize_idempotent: "canonicalize (canonicalize x) = canonicalize x"
proof (induction x rule: length_induct)
  case (1 x)
  show ?case
  proof (cases "10 \<in> set x")
    case False
    then show ?thesis by (rule canonicalize_line_fixed)
  next
    case True
    then obtain l z where x: "x = l @ 10 # z" and l: "10 \<notin> set l"
      by (auto dest: split_list_first)
    from 1 x have z: "canonicalize (canonicalize z) = canonicalize z" by simp
    from canonicalize_line_fixed[OF l] z show ?thesis
      unfolding x canonicalize_lines by simp
  qed
qed

subsection \<open>The canonicalization described\<close>

lemmas ev_canon = canonicalize_def re_sub_def re_search.simps re_sub_from.simps
  angle_rx_def http_rx_def ctga_rx_def ascii_def

text \<open>
  Claim C2, as amended. On a string without line feed the canonicalization removes
  every \<open><\<close> and \<open>>\<close>; then, when \<open>http\<close> occurs again after its first occurrence,
  replaces the text from the first \<open>http\<close> to the last one by a single \<open>http\<close>,
  keeping what stands before the first; then cuts at the first \<open>&ct=ga&\<close>. A line
  feed is kept and the text on either side is canonicalized by itself. The three
  examples of the claim hold.
\<close>

theorem canonicalize_described:
  "(10 \<notin> set x \<longrightarrow> canonicalize x = spec_canonicalize x) \<and>
   canonicalize (l @ 10 # z) = canonicalize l @ 10 # canonicalize z \<and>
   canonicalize (ascii ''<http://a.example/x>'') = ascii ''http://a.example/x'' \<and>
   canonicalize (ascii ''http://wrap.example/r?u=http://real.example/p'')
     = ascii ''http://real.example/p'' \<and>
   canonicalize (ascii ''http://a.example/p&ct=ga&cd=123'') = ascii ''http://a.example/p''"
proof (intro conjI impI)
  assume "10 \<notin> set x"
  then show "canonicalize x = spec_canonicalize x" by (rule canonicalize_line)
next
  show "canonicalize (l @ 10 # z) = canonicalize l @ 10 # canonicalize z"
    by (rule canonicalize_lines)
next
  show "canonicalize (ascii ''<http://a.example/x>'') = ascii ''http://a.example/x''"
    by (simp add: ev_canon)
next
  show "canonicalize (ascii ''http://wrap.example/r?u=http://real.example/p'')
     = ascii ''http://real.example/p''"
    by (simp add: ev_canon)
next
  show "canonicalize (ascii ''http://a.example/p&ct=ga&cd=123'') = ascii ''http://a.example/p''"
    by (simp add: ev_canon)
qed

text \<open>A wrapped URL after a word, with three \<open>http\<close> and a tracking parameter.\<close>

theorem canonicalize_described_witness:
  "10 \<notin> set (ascii ''see <http://w.example/?u=http://v.example/?t=http://r.example/p&ct=ga&cd=1>'') \<and>
   canonicalize (ascii ''see <http://w.example/?u=http://v.example/?t=http://r.example/p&ct=ga&cd=1>'')
     = spec_canonicalize (ascii ''see <http://w.example/?u=http://v.example/?t=http://r.example/p&ct=ga&cd=1>'') \<and>
   spec_canonicalize (ascii ''see <http://w.example/?u=http://v.example/?t=http://r.example/p&ct=ga&cd=1>'')
     = ascii ''see http://r.example/p''"
proof -
  let ?x = "ascii ''see <http://w.example/?u=http://v.example/?t=http://r.example/p&ct=ga&cd=1>''"
  have n: "10 \<notin> set ?x" by (simp add: ascii_def)
  have s: "spec_canonicalize ?x = ascii ''see http://r.example/p''"
    by (simp add: spec_canonicalize_def spec_collapse_def spec_truncate_def ascii_def)
  from canonicalize_described[of ?x] n s show ?thesis by blast
qed

text \<open>
  Claim C2 as stated fails: the text before the first \<open>http\<close> is kept, and with
  three occurrences the text is kept from the last one, not from the second.
\<close>

theorem canonicalize_counterexample:
  "canonicalize (ascii ''see http://w.example/?u=http://r.example/p'') = ascii ''see http://r.example/p'' \<and>
   canonicalize (ascii ''see http://w.example/?u=http://r.example/p'') \<noteq> ascii ''http://r.example/p'' \<and>
   canonicalize (ascii ''http://a.example/?u=http://b.example/?v=http://c.example/'')
     = ascii ''http://c.example/'' \<and>
   canonicalize (ascii ''http://a.example/?u=http://b.example/?v=http://c.example/'')
     \<noteq> ascii ''http://b.example/?v=http://c.example/''"
  by (simp add: ev_canon)

section \<open>Properties of the article extraction\<close>

lemma re_split_unmatched:
  "unmatched r p rest \<Longrightarrow>
     re_split r cap (p @ rest) = (p @ hd (re_split r cap rest)) # tl (re_split r cap rest)"
proof (induction p)
  case Nil
  then show ?case using re_split_nonempty[of r cap rest] by simp
next
  case (Cons c cs)
  then have m: "re_match r (c # cs @ rest) = []" and u: "unmatched r cs rest" by simp_all
  from re_split_skip[OF m] Cons.IH[OF u] show ?case by simp
qed

lemma re_split_matched:
  assumes "nonnull r" "re_match r (d @ rest) = rest # xs"
  shows "re_split r cap (d @ rest) = [] # (if cap then [d] else []) @ re_split r cap rest"
  using re_split_hit[OF assms, of cap] by simp

lemma str_split_ne: "str_split sep s \<noteq> []"
  by (induction s) (auto split: list.splits)

lemma re_split_lit:
  assumes "p \<noteq> []"
  shows "re_split (lit p) False s = str_split p s"
proof -
  from assms have n: "nonnull (lit p)" by (cases p) simp_all
  from n show ?thesis
  proof (induction s rule: scan_induct)
    case Nil
    then show ?case by (simp add: re_split_Nil[OF n])
  next
    case (skip c cs)
    then have "\<not> prefix p (c # cs)" by (simp add: re_match_lit split: if_splits)
    with skip re_split_skip[OF skip(1), of False] str_split_ne[of p cs] show ?case
      by (cases "str_split p cs") simp_all
  next
    case (hit s x xs)
    then have p: "prefix p s" and x: "x = drop (length p) s"
      by (simp_all add: re_match_lit split: if_splits)
    from p assms obtain c cs where s: "s = c # cs" by (cases s) auto
    from re_split_hit[OF n hit(1), of False] hit(3) p assms show ?case
      unfolding x s by simp
  qed
qed

lemma free_before_append:
  "free_before p (a @ b) rest \<longleftrightarrow> free_before p a (b @ rest) \<and> free_before p b rest"
  by (induction a) auto

lemma unmatched_lit: "free_before p s rest \<Longrightarrow> unmatched (lit p) s rest"
  by (induction s) (simp_all add: re_match_lit)

lemma nonnull_lit: "p \<noteq> [] \<Longrightarrow> nonnull (lit p)"
  by (cases p) simp_all

lemma split_join:
  "p \<noteq> [] \<Longrightarrow> xs \<noteq> [] \<Longrightarrow> (\<forall>x \<in> set xs. \<forall>rest. free_before p x rest) \<Longrightarrow>
     re_split (lit p) False (join p xs) = xs"
proof (induction p xs rule: join.induct)
  case (1 sep)
  then show ?case by simp
next
  case (2 sep x)
  then have "unmatched (lit sep) x []" by (simp add: unmatched_lit)
  from re_split_unmatched[OF this, of False] show ?case
    by (simp add: re_split_Nil[OF nonnull_lit[OF 2(1)]])
next
  case (3 sep x y ys)
  let ?J = "join sep (y # ys)"
  from 3 have IH: "re_split (lit sep) False ?J = y # ys" by simp
  have "re_match (lit sep) (sep @ ?J) = [?J]" by (simp add: re_match_lit)
  from re_split_matched[OF nonnull_lit[OF 3(2)] this, of False] IH
  have S: "re_split (lit sep) False (sep @ ?J) = [] # y # ys" by simp
  from 3(4) have "unmatched (lit sep) x (sep @ ?J)" by (simp add: unmatched_lit)
  from re_split_unmatched[OF this, of False] S show ?case by simp
qed

lemma cr_free:
  "CR \<notin> set x \<Longrightarrow> free_before (CR # p) x rest"
  by (induction x) auto

lemma join_crlf_hd:
  "xs \<noteq> [] \<Longrightarrow> hd xs \<noteq> [] \<Longrightarrow> CR \<notin> set (hd xs) \<Longrightarrow>
     \<exists>c cs. join crlf xs = c # cs \<and> c \<noteq> CR"
proof (induction crlf xs rule: join.induct)
  case 1
  then show ?case by simp
next
  case (2 x)
  then show ?case by (cases x) auto
next
  case (3 x y ys)
  then show ?case by (cases x) auto
qed

lemma chunk_free:
  "xs \<noteq> [] \<Longrightarrow> (\<forall>l \<in> set xs. l \<noteq> [] \<and> CR \<notin> set l) \<Longrightarrow>
     free_before [CR, LF, CR, LF] (join crlf xs) rest"
proof (induction crlf xs rule: join.induct)
  case 1
  then show ?case by simp
next
  case (2 x)
  then show ?case by (simp add: cr_free)
next
  case (3 x y ys)
  let ?J = "join crlf (y # ys)"
  from 3 have IH: "free_before [CR, LF, CR, LF] ?J rest" by simp
  from 3(3) join_crlf_hd[of "y # ys"] obtain c cs where J: "?J = c # cs" and c: "c \<noteq> CR"
    by auto
  have x: "free_before [CR, LF, CR, LF] x (crlf @ ?J @ rest)"
    using 3(3) by (simp add: cr_free)
  have "free_before [CR, LF, CR, LF] (crlf @ ?J) rest"
    using IH c unfolding J by (simp add: crlf_def CR_def LF_def)
  with x show ?case by (simp add: free_before_append)
qed

lemma py_last_snoc: "py_last (xs @ [u]) = Inr u"
proof -
  have "py_last ys = Inr (last ys)" if "ys \<noteq> []" for ys :: "'a list"
    using that by (cases ys) (simp_all add: py_last_def)
  from this[of "xs @ [u]"] show ?thesis by simp
qed

lemma slice_m1_snoc: "slice_m1 (xs @ [u]) = xs"
  by (simp add: slice_m1_def)

lemma slice_1_m1_mid: "slice_1_m1 (h # xs @ [f]) = xs"
  by (simp add: slice_1_m1_def)

lemma block_fields_text:
  assumes "\<forall>l \<in> set ls. CR \<notin> set l" "CR \<notin> set u"
  shows "block_fields (block_text (ls, u)) = Inr (strip (concat ls), strip u)"
proof -
  have "re_split (lit [CR, LF]) False (join [CR, LF] (ls @ [u])) = ls @ [u]"
    using assms by (intro split_join) (auto simp: cr_free)
  then have r: "re_split crlf_rx False (block_text (ls, u)) = ls @ [u]"
    by (simp only: crlf_rx_def block_text_def crlf_def fst_conv snd_conv)
  show ?thesis
    unfolding block_fields_def r by (simp add: py_last_snoc slice_m1_snoc)
qed

lemma fields_of_texts:
  assumes "\<forall>b \<in> set blocks. CR \<notin> set (snd b) \<and> (\<forall>l \<in> set (fst b). CR \<notin> set l)"
  shows "fields_of (map block_text blocks) = Inr (map (\<lambda>b. (strip (concat (fst b)), strip (snd b))) blocks)"
  using assms
proof (induction blocks)
  case Nil
  then show ?case by simp
next
  case (Cons b blocks)
  obtain ls u where b: "b = (ls, u)" by (cases b)
  with Cons.prems have "block_fields (block_text (ls, u)) = Inr (strip (concat ls), strip u)"
    by (intro block_fields_text) auto
  with Cons b show ?case by simp
qed

lemma len_delims [simp]: "length (ascii ''==='') = 3" "length (ascii ''- - - '') = 6"
  by (simp_all add: ascii_def)

lemma delim_chars: "ascii ''==='' = [61, 61, 61]" "ascii ''- - - '' = [45, 32, 45, 32, 45, 32]"
  by (simp_all add: ascii_def)

lemma nonnull_delim: "nonnull delim_rx"
  by (simp add: delim_rx_def delim_chars)

lemma re_match_delim:
  "re_match delim_rx u =
     (if prefix (ascii ''==='') u then [drop 3 u] else []) @
     (if prefix (ascii ''- - - '') u then [drop 6 u] else [])"
  by (simp add: delim_rx_def re_match_lit)

lemma unmatched_delim: "no_delim_inside s rest \<Longrightarrow> unmatched delim_rx s rest"
  unfolding no_delim_inside_def
  by (induction s) (simp_all add: re_match_delim)

lemma delim_matched:
  assumes "d = ascii ''==='' \<or> d = ascii ''- - - ''"
  shows "\<exists>xs. re_match delim_rx (d @ rest) = rest # xs"
  using assms
proof
  assume "d = ascii ''===''"
  then show ?thesis by (simp add: re_match_delim)
next
  assume d: "d = ascii ''- - - ''"
  have "\<not> prefix (ascii ''==='') (ascii ''- - - '' @ rest)" by (simp add: delim_chars)
  with d show ?thesis by (simp add: re_match_delim)
qed

lemma split_delim:
  assumes "d = ascii ''==='' \<or> d = ascii ''- - - ''"
  shows "re_split delim_rx True (d @ rest) = [] # d # re_split delim_rx True rest"
proof -
  from delim_matched[OF assms] obtain xs where "re_match delim_rx (d @ rest) = rest # xs" ..
  from re_split_matched[OF nonnull_delim this, of True] show ?thesis by simp
qed

lemma split_tail_hd:
  assumes "tail = [] \<or> delim_at tail"
  shows "hd (re_split delim_rx True tail) = []"
  using assms
proof
  assume "tail = []"
  then show ?thesis by (simp add: re_split_Nil nonnull_delim)
next
  assume "delim_at tail"
  then have "re_match delim_rx tail \<noteq> []"
    by (auto simp: delim_at_def re_match_delim)
  then obtain x xs where "re_match delim_rx tail = x # xs"
    by (cases "re_match delim_rx tail") auto
  from re_split_hit[OF nonnull_delim this, of True] show ?thesis by simp
qed

lemma split_body:
  assumes d: "d1 = ascii ''==='' \<or> d1 = ascii ''- - - ''" "d2 = ascii ''==='' \<or> d2 = ascii ''- - - ''"
    and t: "tail = [] \<or> delim_at tail"
    and f: "no_delim_inside s0 (d1 @ s1 @ d2 @ seg @ tail)"
      "no_delim_inside s1 (d2 @ seg @ tail)" "no_delim_inside seg tail"
  shows "\<exists>more. re_split delim_rx True (s0 @ d1 @ s1 @ d2 @ seg @ tail) = [s0, d1, s1, d2, seg] @ more"
proof -
  let ?T = "re_split delim_rx True tail"
  have 1: "re_split delim_rx True (seg @ tail) = seg # tl ?T"
    using re_split_unmatched[OF unmatched_delim[OF f(3)], of True] split_tail_hd[OF t] by simp
  have 2: "re_split delim_rx True (s1 @ d2 @ seg @ tail) = s1 # d2 # seg # tl ?T"
    using re_split_unmatched[OF unmatched_delim[OF f(2)], of True] split_delim[OF d(2), of "seg @ tail"] 1
    by simp
  have 3: "re_split delim_rx True (s0 @ d1 @ s1 @ d2 @ seg @ tail) = s0 # d1 # s1 # d2 # seg # tl ?T"
    using re_split_unmatched[OF unmatched_delim[OF f(1)], of True]
      split_delim[OF d(1), of "s1 @ d2 @ seg @ tail"] 2
    by simp
  then show ?thesis by simp
qed

lemma add_blocks_fields:
  "add_blocks st arts =
     (case fields_of arts of
        Inl e \<Rightarrow> Inl e
      | Inr fs \<Rightarrow> Inr (foldl (\<lambda>st f. gate st (fst f) (canonicalize (snd f))) st fs))"
proof (induction arts arbitrary: st)
  case Nil
  then show ?case by simp
next
  case (Cons a arts)
  show ?case
  proof (cases "block_fields a")
    case (Inl e)
    then show ?thesis by (simp add: add_block_def)
  next
    case (Inr f)
    with Cons show ?thesis
      by (cases f) (simp add: add_block_def split: sum.splits)
  qed
qed

text \<open>
  Claim C1. A body is built from a text, a delimiter, a text, a delimiter, the article
  segment, and then nothing or a text that starts with a delimiter, with no delimiter
  starting anywhere else up to the end of the segment. The segment is a header, the
  blocks and a footer joined by blank lines; header and footer hold no carriage
  return; each block is its summary lines and then its URL, joined by line breaks,
  every line and URL non-empty and without carriage return. Then the extraction
  returns one pair per block, in order: the trimmed concatenation of the summary lines
  and the trimmed URL line; and the pass over this one body hands exactly these pairs,
  the URL canonicalized, to the gate.
\<close>

theorem extraction_round_trip:
  assumes d: "d1 = ascii ''==='' \<or> d1 = ascii ''- - - ''" "d2 = ascii ''==='' \<or> d2 = ascii ''- - - ''"
    and t: "tail = [] \<or> delim_at tail"
    and f: "no_delim_inside s0 (d1 @ s1 @ d2 @ seg @ tail)"
      "no_delim_inside s1 (d2 @ seg @ tail)" "no_delim_inside seg tail"
    and seg: "seg = join [CR, LF, CR, LF] (header # map block_text blocks @ [footer])"
    and h: "CR \<notin> set header" "CR \<notin> set footer"
    and b: "\<forall>b \<in> set blocks. snd b \<noteq> [] \<and> CR \<notin> set (snd b) \<and>
              (\<forall>l \<in> set (fst b). l \<noteq> [] \<and> CR \<notin> set l)"
  shows "extract_articles (s0 @ d1 @ s1 @ d2 @ seg @ tail) =
           Inr (map (\<lambda>b. (strip (concat (fst b)), strip (snd b))) blocks) \<and>
         collect_articles [s0 @ d1 @ s1 @ d2 @ seg @ tail] =
           Inr (gate_all ([], [])
                 (map (\<lambda>b. \<lparr>body = strip (concat (fst b)), url = canonicalize (strip (snd b))\<rparr>)
                    blocks))"
proof -
  let ?sep = "[CR, LF, CR, LF]"
  from split_body[OF d t f] obtain more
    where "re_split delim_rx True (s0 @ d1 @ s1 @ d2 @ seg @ tail) = [s0, d1, s1, d2, seg] @ more" ..
  then have i: "py_index (re_split delim_rx True (s0 @ d1 @ s1 @ d2 @ seg @ tail)) 4 = Inr seg"
    by (simp add: py_index_def)
  have c: "\<forall>rest. free_before ?sep (block_text x) rest" if "x \<in> set blocks" for x
  proof
    fix rest
    from b that have "\<forall>l \<in> set (fst x @ [snd x]). l \<noteq> [] \<and> CR \<notin> set l" by auto
    then show "free_before ?sep (block_text x) rest"
      unfolding block_text_def by (intro chunk_free) simp_all
  qed
  have "\<forall>x \<in> set (header # map block_text blocks @ [footer]). \<forall>rest. free_before ?sep x rest"
    using h c by (auto simp: cr_free)
  then have "re_split (lit ?sep) False (join ?sep (header # map block_text blocks @ [footer]))
      = header # map block_text blocks @ [footer]"
    by (intro split_join) simp_all
  then have s: "str_split ?sep seg = header # map block_text blocks @ [footer]"
    unfolding seg by (simp add: re_split_lit del: lit.simps)
  have "blocks_of (s0 @ d1 @ s1 @ d2 @ seg @ tail) = Inr (map block_text blocks)"
    by (simp add: blocks_of_def i s slice_1_m1_mid)
  moreover have "fields_of (map block_text blocks) =
      Inr (map (\<lambda>b. (strip (concat (fst b)), strip (snd b))) blocks)"
    using b by (intro fields_of_texts) auto
  ultimately show ?thesis
    by (simp add: extract_articles_def collect_articles_def add_blocks_fields gate_all_def
        foldl_map)
qed

text \<open>
  The newer sample digest: two blocks between an empty header and an empty footer, the
  second with two summary lines.
\<close>

theorem extraction_round_trip_witness:
  "body_new = [] @ ascii ''==='' @ ascii ''N'' @ ascii ''==='' @
      join [CR, LF, CR, LF]
        ([] # map block_text [([ascii ''T1''], ascii ''<http://a/x>''),
                              ([ascii ''T2'', ascii ''S2''], ascii ''<http://b/y>'')] @ [[]])
      @ ascii ''- - - f'' \<and>
   extract_articles body_new =
     Inr [(ascii ''T1'', ascii ''<http://a/x>''), (ascii ''T2S2'', ascii ''<http://b/y>'')] \<and>
   collect_articles [body_new] = Inr ([url art_A, url art_B], [art_A, art_B])"
proof -
  let ?blocks = "[([ascii ''T1''], ascii ''<http://a/x>''),
                  ([ascii ''T2'', ascii ''S2''], ascii ''<http://b/y>'')]"
  let ?seg = "join [CR, LF, CR, LF] ([] # map block_text ?blocks @ [[]])"
  let ?tail = "ascii ''- - - f''"
  have e: "body_new = [] @ ascii ''==='' @ ascii ''N'' @ ascii ''==='' @ ?seg @ ?tail"
    by (simp add: body_new_def block_text_def crlf_def ascii_def)
  have t: "?tail = [] \<or> delim_at ?tail"
    by (simp add: delim_at_def ascii_def)
  have f: "no_delim_inside [] (ascii ''==='' @ ascii ''N'' @ ascii ''==='' @ ?seg @ ?tail)"
    "no_delim_inside (ascii ''N'') (ascii ''==='' @ ?seg @ ?tail)"
    "no_delim_inside ?seg ?tail"
    by (simp_all add: no_delim_inside_def block_text_def crlf_def CR_def LF_def ascii_def)
  have b: "\<forall>b \<in> set ?blocks. snd b \<noteq> [] \<and> CR \<notin> set (snd b) \<and>
              (\<forall>l \<in> set (fst b). l \<noteq> [] \<and> CR \<notin> set l)"
    by (simp add: CR_def ascii_def)
  note r = extraction_round_trip[where ?s0.0 = "[]" and ?d1.0 = "ascii ''===''" and ?s1.0 = "ascii ''N''"
      and ?d2.0 = "ascii ''===''" and seg = ?seg and tail = ?tail and header = "[]"
      and footer = "[]" and blocks = ?blocks, OF _ _ t f _ _ _ b, folded e]
  have x: "extract_articles body_new =
     Inr (map (\<lambda>b. (strip (concat (fst b)), strip (snd b))) ?blocks)"
    and c: "collect_articles [body_new] =
     Inr (gate_all ([], [])
           (map (\<lambda>b. \<lparr>body = strip (concat (fst b)), url = canonicalize (strip (snd b))\<rparr>) ?blocks))"
    using r by simp_all
  have "extract_articles body_new =
     Inr [(ascii ''T1'', ascii ''<http://a/x>''), (ascii ''T2S2'', ascii ''<http://b/y>'')]"
    unfolding x by (simp add: strip_def isspace_def ascii_def)
  moreover have "collect_articles [body_new] = Inr ([url art_A, url art_B], [art_A, art_B])"
    unfolding c
    by (simp add: gate_all_def gate_def art_A_def art_B_def strip_def isspace_def ev_canon)
  ultimately show ?thesis using e by blast
qed

end
